theory Spec2Isabelle
  imports Main
begin

section \<open>Data model (b\_tree.py)\<close>

text \<open>
  A node holds a list of keys and a list of child nodes; a leaf is a node whose list of
  children is empty. Keys are values of a totally ordered type; Python's \<open>None\<close> key is
  the \<open>None\<close> of an option at the public operations and is never stored.
\<close>

datatype 'a BTreeNode = BTreeNode (keys: "'a list") (children: "'a BTreeNode list")

record 'a BTree =
  order :: int
  root :: "'a BTreeNode option"

text \<open>
  The exceptions the code can raise. \<open>InvalidKey\<close> and \<open>KeyNotFound\<close> are the two
  \<open>ValueError\<close>s raised on purpose (a \<open>None\<close> key, the removal of a key that the descent
  does not find); \<open>IndexError\<close> and \<open>UnboundLocalError\<close> are what the Python runtime
  raises on an out-of-range list access and on reading a local variable that was never
  assigned.
\<close>

datatype error = InvalidKey | KeyNotFound | IndexError | UnboundLocalError

type_synonym 'a path = "('a BTreeNode \<times> nat) list"

definition is_leaf :: "'a BTreeNode \<Rightarrow> bool" where
  "is_leaf n = (length (children n) = 0)"

definition is_internal :: "'a BTreeNode \<Rightarrow> bool" where
  "is_internal n = (\<not> is_leaf n)"

definition insert_key :: "nat \<Rightarrow> 'a \<Rightarrow> 'a BTreeNode \<Rightarrow> 'a BTreeNode" where
  "insert_key idx key n = BTreeNode (take idx (keys n) @ key # drop idx (keys n)) (children n)"

subsection \<open>Python list access\<close>

text \<open>
  \<open>xs[i]\<close> with a possibly negative index: \<open>None\<close> stands for IndexError.
  \<open>xs[:i]\<close> and \<open>xs[i:]\<close> never raise; a negative bound counts from the end and
  every bound is clamped to the list.
\<close>

definition py_get :: "'b list \<Rightarrow> int \<Rightarrow> 'b option" where
  "py_get xs i =
     (if 0 \<le> i \<and> i < int (length xs) then Some (xs ! nat i)
      else if i < 0 \<and> - i \<le> int (length xs) then Some (xs ! nat (int (length xs) + i))
      else None)"

definition py_bound :: "int \<Rightarrow> nat \<Rightarrow> nat" where
  "py_bound i n = (if i < 0 then nat (int n + i) else min (nat i) n)"

definition slice_to :: "int \<Rightarrow> 'b list \<Rightarrow> 'b list" where
  "slice_to i xs = take (py_bound i (length xs)) xs"

definition slice_from :: "int \<Rightarrow> 'b list \<Rightarrow> 'b list" where
  "slice_from i xs = drop (py_bound i (length xs)) xs"

text \<open>\<open>del xs[i]\<close> for an index that is in range.\<close>

definition del_at :: "nat \<Rightarrow> 'b list \<Rightarrow> 'b list" where
  "del_at i xs = take i xs @ drop (Suc i) xs"

subsection \<open>The key scan shared by search, insert and remove\<close>

text \<open>
  \<open>i = 0; while i < len(keys) and target > keys[i]: i += 1\<close>: the number of leading keys
  that the target is strictly greater than.
\<close>

fun curr_key_idx :: "'a::linorder \<Rightarrow> 'a list \<Rightarrow> nat" where
  "curr_key_idx target [] = 0"
| "curr_key_idx target (k # ks) = (if target > k then Suc (curr_key_idx target ks) else 0)"

lemma size_nth_children [termination_simp]:
  "i < length cs \<Longrightarrow> size (cs ! i) < Suc (size_list size cs)"
  by (metis less_Suc_eq_le nth_mem order_refl size_list_estimation')

lemma size_child [termination_simp]:
  "i < length (children n) \<Longrightarrow> size (children n ! i) < size n"
  using size_nth_children [of i "children n"] by (cases n) auto

section \<open>Traversal\<close>

text \<open>
  \<open>BTreeNode.traverse_inorder\<close>, consumed to its end: the list of the keys yielded, or the
  exception raised on the way. \<open>weave\<close> is the \<open>for i, c in enumerate(self.keys)\<close> loop of
  an internal node over the traversals of its children: \<open>children[i]\<close> raises IndexError
  when there are fewer children than keys.
\<close>

fun weave :: "(error + 'a list) list \<Rightarrow> 'a list \<Rightarrow> error + 'a list" where
  "weave rs [] = Inr []"
| "weave [] (k # ks) = Inl IndexError"
| "weave (r # rs) (k # ks) =
     (case r of Inl e \<Rightarrow> Inl e
      | Inr xs \<Rightarrow> (case weave rs ks of Inl e \<Rightarrow> Inl e | Inr ys \<Rightarrow> Inr (xs @ k # ys)))"

fun node_traverse_inorder :: "'a BTreeNode \<Rightarrow> error + 'a list" where
  "node_traverse_inorder (BTreeNode ks cs) =
     (if cs = [] then Inr ks
      else (case weave (map node_traverse_inorder cs) ks of Inl e \<Rightarrow> Inl e
            | Inr xs \<Rightarrow> (case last (map node_traverse_inorder cs) of Inl e \<Rightarrow> Inl e
                         | Inr ys \<Rightarrow> Inr (xs @ ys))))"

definition traverse_inorder :: "'a BTree \<Rightarrow> error + 'a list" where
  "traverse_inorder t = (case root t of None \<Rightarrow> Inr [] | Some r \<Rightarrow> node_traverse_inorder r)"

section \<open>Search\<close>

text \<open>
  The \<open>while curr_node:\<close> loop of \<open>BTree.search\<close>. A node object is always truthy, so the
  loop only ends by the \<open>return\<close> inside it or by the exception of
  \<open>curr_node.children[curr_key_idx]\<close>.
\<close>

function search_node :: "'a::linorder \<Rightarrow> 'a BTreeNode \<Rightarrow> error + 'a BTreeNode option" where
  "search_node target curr_node =
     (let i = curr_key_idx target (keys curr_node) in
      if i \<noteq> length (keys curr_node) \<and> target = keys curr_node ! i then Inr (Some curr_node)
      else if i < length (children curr_node) then search_node target (children curr_node ! i)
      else Inl IndexError)"
  by pat_completeness auto
termination
  by (relation "measure (\<lambda>(t, n). size n)") (auto simp: size_child)

definition search :: "'a::linorder option \<Rightarrow> 'a BTree \<Rightarrow> error + 'a BTreeNode option" where
  "search target t =
     (case target of None \<Rightarrow> Inl InvalidKey
      | Some k \<Rightarrow> (case root t of None \<Rightarrow> Inr None | Some r \<Rightarrow> search_node k r))"

section \<open>Paths\<close>

text \<open>
  Insertion and removal record the nodes they descend through and repair the tree by
  walking that record backwards, mutating the recorded nodes in place. Here a path is the
  list of the pairs (ancestor, index of the child slot that the descent took), the nearest
  ancestor first, and the node the walk currently stands on is passed beside it; the
  ancestors are values, so the slot of an ancestor still holds the version of the child
  from the time of the descent. \<open>plug\<close> writes the current version of a node into its
  slot, level by level, and gives the root: it is what the objects of the Python program
  look like from the root when a repair walk returns.
\<close>

fun plug :: "'a BTreeNode \<Rightarrow> 'a path \<Rightarrow> 'a BTreeNode" where
  "plug n [] = n"
| "plug n ((p, i) # path) = plug (BTreeNode (keys p) ((children p)[i := n])) path"

section \<open>Insertion\<close>

text \<open>
  The \<open>while True:\<close> descent of \<open>BTree.insert\<close>: it gives the leaf, the index at which
  the key goes into the leaf, and the path to the leaf.
\<close>

function insert_descend ::
  "'a::linorder \<Rightarrow> 'a BTreeNode \<Rightarrow> 'a path \<Rightarrow> error + ('a BTreeNode \<times> nat \<times> 'a path)" where
  "insert_descend key curr_node path =
     (let i = curr_key_idx key (keys curr_node) in
      if is_leaf curr_node then Inr (curr_node, i, path)
      else if i < length (children curr_node)
           then insert_descend key (children curr_node ! i) ((curr_node, i) # path)
           else Inl IndexError)"
  by pat_completeness auto
termination
  by (relation "measure (\<lambda>(k, n, p). size n)") (auto simp: size_child)

text \<open>
  One round of the loop of \<open>BTree._fix_insert\<close> on a node that holds too many keys.
  \<open>split_node\<close> builds \<open>left_node\<close> and \<open>right_node\<close> and reads the key at
  \<open>mid_key_idx\<close> (\<open>None\<close>: that read raises IndexError); \<open>promote\<close> is the \<open>else\<close>
  branch that writes the three into the parent.
\<close>

definition split_node :: "int \<Rightarrow> 'a BTreeNode \<Rightarrow> ('a BTreeNode \<times> 'a \<times> 'a BTreeNode) option" where
  "split_node ord curr_node =
     (let mid_key_idx = (ord - 1) div 2;
          left_node = BTreeNode (slice_to mid_key_idx (keys curr_node))
                                (slice_to (mid_key_idx + 1) (children curr_node));
          right_node = BTreeNode (slice_from (mid_key_idx + 1) (keys curr_node))
                                 (slice_from (mid_key_idx + 1) (children curr_node))
      in case py_get (keys curr_node) mid_key_idx of
           None \<Rightarrow> None
         | Some k \<Rightarrow> Some (left_node, k, right_node))"

definition promote ::
  "'a BTreeNode \<Rightarrow> nat \<Rightarrow> 'a BTreeNode \<Rightarrow> 'a \<Rightarrow> 'a BTreeNode \<Rightarrow> 'a BTreeNode" where
  "promote parent idx_node_as_child left_node k right_node =
     (let parent1 = insert_key idx_node_as_child k parent;
          cs = (children parent1)[idx_node_as_child := left_node]
      in BTreeNode (keys parent1)
           (take (idx_node_as_child + 1) cs @ right_node # drop (idx_node_as_child + 1) cs))"

text \<open>
  \<open>BTree._fix_insert\<close>: the walk from the leaf towards the root. The result is the
  exception raised, if any, and the root after the walk.
\<close>

fun fix_insert :: "int \<Rightarrow> 'a BTreeNode \<Rightarrow> 'a path \<Rightarrow> error option \<times> 'a BTreeNode" where
  "fix_insert ord curr_node [] =
     (if int (length (keys curr_node)) \<le> ord - 1 then (None, curr_node)
      else (case split_node ord curr_node of
              None \<Rightarrow> (Some IndexError, curr_node)
            | Some (left_node, k, right_node) \<Rightarrow> (None, BTreeNode [k] [left_node, right_node])))"
| "fix_insert ord curr_node ((parent, idx_node_as_child) # path) =
     (if int (length (keys curr_node)) \<le> ord - 1
      then (None, plug curr_node ((parent, idx_node_as_child) # path))
      else (case split_node ord curr_node of
              None \<Rightarrow> (Some IndexError, plug curr_node ((parent, idx_node_as_child) # path))
            | Some (left_node, k, right_node) \<Rightarrow>
                (if idx_node_as_child < length (children parent)
                 then fix_insert ord (promote parent idx_node_as_child left_node k right_node) path
                 else (Some IndexError, plug (insert_key idx_node_as_child k parent) path))))"

definition insert_tree :: "'a::linorder option \<Rightarrow> 'a BTree \<Rightarrow> error option \<times> 'a BTree" where
  "insert_tree key t =
     (case key of
        None \<Rightarrow> (Some InvalidKey, t)
      | Some k \<Rightarrow>
         (case root t of
            None \<Rightarrow> (None, t\<lparr>root := Some (BTreeNode [k] [])\<rparr>)
          | Some r \<Rightarrow>
             (case insert_descend k r [] of
                Inl e \<Rightarrow> (Some e, t)
              | Inr (leaf, leaf_key_idx, path) \<Rightarrow>
                 (case fix_insert (order t) (insert_key leaf_key_idx k leaf) path of
                    (e, r') \<Rightarrow> (e, t\<lparr>root := Some r'\<rparr>)))))"

section \<open>Removal\<close>

definition is_node_underflowing :: "int \<Rightarrow> bool \<Rightarrow> 'a BTreeNode \<Rightarrow> bool" where
  "is_node_underflowing ord node_is_root node =
     (if node_is_root then False else int (length (keys node)) < (ord - 1) div 2)"

definition is_node_populous :: "int \<Rightarrow> bool \<Rightarrow> 'a BTreeNode \<Rightarrow> bool" where
  "is_node_populous ord node_is_root node =
     (if node_is_root then False else int (length (keys node)) \<ge> (ord - 1) div 2 + 1)"

text \<open>
  The \<open>while target_node:\<close> descent of \<open>BTree.remove\<close>: it gives the node holding the
  key, the index of the key in it and the path to that node, or raises.
\<close>

function remove_descend ::
  "'a::linorder \<Rightarrow> 'a BTreeNode \<Rightarrow> 'a path \<Rightarrow> error + ('a BTreeNode \<times> nat \<times> 'a path)" where
  "remove_descend key target_node path =
     (let i = curr_key_idx key (keys target_node) in
      if i < length (keys target_node) \<and> key = keys target_node ! i
      then Inr (target_node, i, path)
      else if is_internal target_node
           then (if i < length (children target_node)
                 then remove_descend key (children target_node ! i) ((target_node, i) # path)
                 else Inl IndexError)
           else Inl KeyNotFound)"
  by pat_completeness auto
termination
  by (relation "measure (\<lambda>(k, n, p). size n)") (auto simp: size_child)

text \<open>\<open>while leaf.is_internal(): leaf = leaf.children[0]; path.append((leaf, 0))\<close>\<close>

function descend_leftmost :: "'a BTreeNode \<Rightarrow> 'a path \<Rightarrow> 'a BTreeNode \<times> 'a path" where
  "descend_leftmost leaf path =
     (if is_internal leaf then descend_leftmost (children leaf ! 0) ((leaf, 0) # path)
      else (leaf, path))"
  by pat_completeness auto
termination
  by (relation "measure (\<lambda>(n, p). size n)") (auto simp: size_child is_internal_def is_leaf_def)

text \<open>
  One round of the loop of \<open>BTree._fix_remove\<close> at a node that is not the root ends the
  walk (\<open>Stop\<close>: \<open>return\<close>, \<open>break\<close> or an exception) or goes on one level up
  (\<open>Continue\<close>); both carry the parent as the round leaves it. The flag says whether the
  local variable \<open>left_sibling\<close> has been assigned, in this round or an earlier one.
\<close>

datatype 'a walk = Stop "error option" "'a BTreeNode" | Continue bool "'a BTreeNode"

text \<open>
  The two \<open>break\<close> branches: the keys and children of the node, the separator and the
  populous sibling are concatenated and cut again at the middle. \<open>i\<close> is the index of the
  left one of the two children, which is also the index of the separator.
\<close>

definition redistribute ::
  "'a list \<Rightarrow> 'a BTreeNode list \<Rightarrow> nat \<Rightarrow> 'a BTreeNode \<Rightarrow> 'a BTreeNode \<Rightarrow> 'a walk" where
  "redistribute pkeys pchildren i l r =
     (if \<not> i < length pkeys then Stop (Some IndexError) (BTreeNode pkeys pchildren)
      else
        (let merged_keys = keys l @ [pkeys ! i] @ keys r;
             merged_children = children l @ children r;
             merged_keys_mid_idx = length merged_keys div 2;
             l' = BTreeNode (take merged_keys_mid_idx merged_keys)
                            (take (merged_keys_mid_idx + 1) merged_children);
             r' = BTreeNode (drop (merged_keys_mid_idx + 1) merged_keys)
                            (drop (merged_keys_mid_idx + 1) merged_children)
         in Stop None (BTreeNode (pkeys[i := merged_keys ! merged_keys_mid_idx])
                                 (pchildren[i := l', i + 1 := r']))))"

text \<open>
  The two merging branches: the child at \<open>i + 1\<close> is deleted from the parent, then the
  separator at \<open>i\<close> is popped and appended to the child at \<open>i\<close>, then the keys and the
  children of the deleted child are.
\<close>

definition merge_children ::
  "bool \<Rightarrow> 'a list \<Rightarrow> 'a BTreeNode list \<Rightarrow> nat \<Rightarrow> 'a walk" where
  "merge_children lb pkeys pchildren i =
     (let l = pchildren ! i; r = pchildren ! (i + 1);
          pchildren' = del_at (i + 1) pchildren
      in if \<not> i < length pkeys then Stop (Some IndexError) (BTreeNode pkeys pchildren')
         else Continue lb
                (BTreeNode (del_at i pkeys)
                           (pchildren'[i := BTreeNode (keys l @ [pkeys ! i] @ keys r)
                                                     (children l @ children r)])))"

text \<open>
  Case 1 at a node that is the only child of its parent: \<open>left_sibling\<close> was not assigned
  in this round. Python raises UnboundLocalError if it never was; otherwise it is the
  sibling of an earlier round, a node below the current node. The current node is deleted
  from its parent and the last key of the parent is popped (\<open>pop(-1)\<close>); what is appended
  to the old sibling is no longer reachable from the root.
\<close>

definition merge_stale :: "bool \<Rightarrow> 'a list \<Rightarrow> 'a BTreeNode list \<Rightarrow> 'a walk" where
  "merge_stale lb pkeys pchildren =
     (if \<not> lb then Stop (Some UnboundLocalError) (BTreeNode pkeys pchildren)
      else if pkeys = [] then Stop (Some IndexError) (BTreeNode pkeys (del_at 0 pchildren))
      else Continue lb (BTreeNode (butlast pkeys) (del_at 0 pchildren)))"

definition fix_remove_step ::
  "int \<Rightarrow> bool \<Rightarrow> 'a BTreeNode \<Rightarrow> 'a BTreeNode \<Rightarrow> nat \<Rightarrow> 'a walk" where
  "fix_remove_step ord lb curr_node parent curr_node_child_idx =
     (let pkeys = keys parent;
          pchildren = (children parent)[curr_node_child_idx := curr_node]
      in
      if \<not> is_node_underflowing ord False curr_node then Stop None (BTreeNode pkeys pchildren)
      else if \<not> curr_node_child_idx < length pchildren
      then Stop (Some IndexError) (BTreeNode pkeys pchildren)
      else if curr_node_child_idx \<noteq> 0
              \<and> is_node_populous ord False (pchildren ! (curr_node_child_idx - 1))
      then redistribute pkeys pchildren (curr_node_child_idx - 1)
             (pchildren ! (curr_node_child_idx - 1)) curr_node
      else if curr_node_child_idx \<noteq> length pchildren - 1
              \<and> is_node_populous ord False (pchildren ! (curr_node_child_idx + 1))
      then redistribute pkeys pchildren curr_node_child_idx
             curr_node (pchildren ! (curr_node_child_idx + 1))
      else if curr_node_child_idx = length pchildren - 1
      then (if curr_node_child_idx \<noteq> 0
            then merge_children True pkeys pchildren (curr_node_child_idx - 1)
            else merge_stale lb pkeys pchildren)
      else merge_children (lb \<or> curr_node_child_idx \<noteq> 0) pkeys pchildren curr_node_child_idx)"

text \<open>
  \<open>BTree._fix_remove\<close>: the walk from the leaf that lost a key towards the root. The
  result is the exception raised, if any, and the root after the walk. The node the walk
  stands on is the root exactly when the path above it is empty; the root is replaced by
  its child when it has exactly one, and otherwise the walk returns there, since
  \<open>_is_node_underflowing\<close> is false of the root.
\<close>

fun fix_remove :: "int \<Rightarrow> bool \<Rightarrow> 'a BTreeNode \<Rightarrow> 'a path \<Rightarrow> error option \<times> 'a BTreeNode" where
  "fix_remove ord lb curr_node [] =
     (if length (children curr_node) = 1 then (None, children curr_node ! 0)
      else (None, curr_node))"
| "fix_remove ord lb curr_node ((parent, curr_node_child_idx) # path) =
     (case fix_remove_step ord lb curr_node parent curr_node_child_idx of
        Stop e parent' \<Rightarrow> (e, plug parent' path)
      | Continue lb' parent' \<Rightarrow> fix_remove ord lb' parent' path)"

text \<open>
  The second half of \<open>BTree.remove\<close>, after the descent has found the key at index
  \<open>target_node_key_idx\<close> of \<open>target_node\<close>: the key is overwritten by its successor,
  which is deleted from its leaf, or it is deleted from the leaf it stands in; then the
  repair walk runs. \<open>r\<close> is the root before the call: an exception raised before the
  first write leaves it as it is. The frames recorded by \<open>descend_leftmost\<close> go on top of
  the frame of \<open>target_node\<close>, which holds the node with its key already overwritten.
\<close>

definition delete_key ::
  "int \<Rightarrow> 'a BTreeNode \<Rightarrow> 'a BTreeNode \<Rightarrow> nat \<Rightarrow> 'a path \<Rightarrow> error option \<times> 'a BTreeNode" where
  "delete_key ord r target_node target_node_key_idx path =
     (if is_internal target_node
      then
        (if \<not> target_node_key_idx + 1 < length (children target_node)
         then (Some IndexError, r)
         else
           (case descend_leftmost (children target_node ! (target_node_key_idx + 1)) [] of
              (leaf, below) \<Rightarrow>
                (case keys leaf of
                   [] \<Rightarrow> (Some IndexError, r)
                 | k0 # rest \<Rightarrow>
                     fix_remove ord False (BTreeNode rest (children leaf))
                       (below @ (BTreeNode ((keys target_node)[target_node_key_idx := k0])
                                           (children target_node),
                                 target_node_key_idx + 1) # path))))
      else fix_remove ord False
             (BTreeNode (del_at target_node_key_idx (keys target_node)) (children target_node))
             path)"

definition remove_tree :: "'a::linorder option \<Rightarrow> 'a BTree \<Rightarrow> error option \<times> 'a BTree" where
  "remove_tree key t =
     (case key of
        None \<Rightarrow> (Some InvalidKey, t)
      | Some k \<Rightarrow>
         (case root t of
            None \<Rightarrow> (Some KeyNotFound, t)
          | Some r \<Rightarrow>
             (case remove_descend k r [] of
                Inl e \<Rightarrow> (Some e, t)
              | Inr (target_node, target_node_key_idx, path) \<Rightarrow>
                 (case delete_key (order t) r target_node target_node_key_idx path of
                    (e, r') \<Rightarrow> (e, t\<lparr>root := Some r'\<rparr>)))))"

section \<open>Notions used to state the properties\<close>

subsection \<open>Keys, nodes and shape\<close>

text \<open>The keys stored in a subtree and in a tree, and the nodes of a subtree.\<close>

fun keys_of :: "'a BTreeNode \<Rightarrow> 'a set" where
  "keys_of (BTreeNode ks cs) = set ks \<union> (\<Union>c\<in>set cs. keys_of c)"

definition tree_keys :: "'a BTree \<Rightarrow> 'a set" where
  "tree_keys t = (case root t of None \<Rightarrow> {} | Some r \<Rightarrow> keys_of r)"

fun subtrees :: "'a BTreeNode \<Rightarrow> 'a BTreeNode set" where
  "subtrees (BTreeNode ks cs) = insert (BTreeNode ks cs) (\<Union>c\<in>set cs. subtrees c)"

text \<open>
  The shape of a node in the data model: a leaf has no children, an internal node has
  one more child than it has keys.
\<close>

fun well_formed :: "'a BTreeNode \<Rightarrow> bool" where
  "well_formed (BTreeNode ks cs) =
     ((cs = [] \<or> length cs = length ks + 1) \<and> (\<forall>c\<in>set cs. well_formed c))"

definition tree_well_formed :: "'a BTree \<Rightarrow> bool" where
  "tree_well_formed t = (case root t of None \<Rightarrow> True | Some r \<Rightarrow> well_formed r)"

subsection \<open>Sequences of operations\<close>

text \<open>
  A sequence of calls of \<open>insert\<close> and \<open>remove\<close> with keys other than \<open>None\<close>, run
  from a tree; a call that raises leaves the tree as the model of the call gives it.
  \<open>present_after\<close> keeps the list of the keys inserted and not removed since, and
  \<open>distinct_keys\<close> says that no insertion of the sequence inserts a key that is in that
  list at the time.
\<close>

datatype 'a op = Insert 'a | Remove 'a

fun apply_op :: "'a::linorder op \<Rightarrow> 'a BTree \<Rightarrow> 'a BTree" where
  "apply_op (Insert k) T = snd (insert_tree (Some k) T)"
| "apply_op (Remove k) T = snd (remove_tree (Some k) T)"

fun run :: "'a::linorder op list \<Rightarrow> 'a BTree \<Rightarrow> 'a BTree" where
  "run [] T = T"
| "run (x # ops) T = run ops (apply_op x T)"

fun present_after :: "'a list \<Rightarrow> 'a op list \<Rightarrow> 'a list" where
  "present_after present [] = present"
| "present_after present (Insert k # ops) = present_after (k # present) ops"
| "present_after present (Remove k # ops) = present_after (removeAll k present) ops"

fun distinct_keys :: "'a list \<Rightarrow> 'a op list \<Rightarrow> bool" where
  "distinct_keys present [] = True"
| "distinct_keys present (Insert k # ops) = (k \<notin> set present \<and> distinct_keys (k # present) ops)"
| "distinct_keys present (Remove k # ops) = distinct_keys (removeAll k present) ops"

definition empty_tree :: "int \<Rightarrow> 'a BTree" where
  "empty_tree M = \<lparr>order = M, root = None\<rparr>"

text \<open>
  A tree of order 3 and height 2 (the one reached by inserting 4, 2, 6, 1, 3, 5, 7), and
  a sequence of operations on the empty tree of order 3.
\<close>

definition sample_root :: "int BTreeNode" where
  "sample_root = BTreeNode [4] [BTreeNode [2] [BTreeNode [1] [], BTreeNode [3] []],
                                BTreeNode [6] [BTreeNode [5] [], BTreeNode [7] []]]"

definition sample_tree :: "int BTree" where
  "sample_tree = \<lparr>order = 3, root = Some sample_root\<rparr>"

definition sample_ops :: "int op list" where
  "sample_ops = [Insert 4, Insert 2, Insert 6, Insert 1, Insert 3, Insert 5, Insert 7,
                 Remove 4, Remove 1, Remove 9, Insert 8, Remove 6]"

subsection \<open>Minimum occupancy\<close>

text \<open>
  Every node of a subtree holds at least \<open>(M - 1) div 2\<close> keys; in a tree, every node
  but the root does.
\<close>

fun min_occupancy :: "int \<Rightarrow> 'a BTreeNode \<Rightarrow> bool" where
  "min_occupancy M (BTreeNode ks cs) =
     ((M - 1) div 2 \<le> int (length ks) \<and> (\<forall>c\<in>set cs. min_occupancy M c))"

definition occupancy_bound :: "'a BTree \<Rightarrow> bool" where
  "occupancy_bound T =
     (case root T of None \<Rightarrow> True | Some r \<Rightarrow> (\<forall>c\<in>set (children r). min_occupancy (order T) c))"

subsection \<open>The split, in the words of the specification\<close>

text \<open>
  The middle index, the left node (the keys before the middle, the children up to the
  middle), the right node (the keys and the children after the middle), the promoted key,
  and the parent after the promotion: the key goes in at the index of the slot of the
  node, the left node takes that slot and the right node comes right after it.
\<close>

definition spec_mid :: "int \<Rightarrow> nat" where
  "spec_mid ord = nat ((ord - 1) div 2)"

definition spec_left :: "int \<Rightarrow> 'a BTreeNode \<Rightarrow> 'a BTreeNode" where
  "spec_left ord n =
     BTreeNode (take (spec_mid ord) (keys n)) (take (spec_mid ord + 1) (children n))"

definition spec_right :: "int \<Rightarrow> 'a BTreeNode \<Rightarrow> 'a BTreeNode" where
  "spec_right ord n =
     BTreeNode (drop (spec_mid ord + 1) (keys n)) (drop (spec_mid ord + 1) (children n))"

definition spec_promoted :: "int \<Rightarrow> 'a BTreeNode \<Rightarrow> 'a" where
  "spec_promoted ord n = keys n ! spec_mid ord"

definition spec_parent_after_split ::
  "'a BTreeNode \<Rightarrow> nat \<Rightarrow> 'a BTreeNode \<Rightarrow> 'a \<Rightarrow> 'a BTreeNode \<Rightarrow> 'a BTreeNode" where
  "spec_parent_after_split p i l k r =
     BTreeNode (take i (keys p) @ k # drop i (keys p))
               (take i (children p) @ l # r # drop (i + 1) (children p))"

subsection \<open>The successor, in the words of the specification\<close>

text \<open>
  The leaf reached by going into the leftmost child until a leaf is reached, and the
  subtree in which that leaf has lost its first key.
\<close>

function leftmost_leaf :: "'a BTreeNode \<Rightarrow> 'a BTreeNode" where
  "leftmost_leaf n = (if is_internal n then leftmost_leaf (children n ! 0) else n)"
  by pat_completeness auto
termination
  by (relation "measure size") (auto simp: size_child is_internal_def is_leaf_def)

function without_first_key :: "'a BTreeNode \<Rightarrow> 'a BTreeNode" where
  "without_first_key n =
     (if is_internal n
      then BTreeNode (keys n) ((children n)[0 := without_first_key (children n ! 0)])
      else BTreeNode (tl (keys n)) (children n))"
  by pat_completeness auto
termination
  by (relation "measure size") (auto simp: size_child is_internal_def is_leaf_def)

subsection \<open>The merge, in the words of the specification\<close>

text \<open>
  The parent after its children at \<open>j\<close> and \<open>j + 1\<close> have been merged into one node in
  the slot \<open>j\<close>: that node holds the keys of the left one, the separator at \<open>j\<close> and the
  keys of the right one, and the children of both; the separator and the slot \<open>j + 1\<close>
  are gone from the parent. \<open>spec_merge\<close> merges the child at \<open>i\<close> with a sibling, the
  left one whenever there is one.
\<close>

definition merge_at :: "'a list \<Rightarrow> 'a BTreeNode list \<Rightarrow> nat \<Rightarrow> 'a BTreeNode" where
  "merge_at pkeys pchildren j =
     BTreeNode (take j pkeys @ drop (j + 1) pkeys)
       (take j pchildren
        @ BTreeNode (keys (pchildren ! j) @ pkeys ! j # keys (pchildren ! (j + 1)))
                    (children (pchildren ! j) @ children (pchildren ! (j + 1)))
        # drop (j + 2) pchildren)"

definition spec_merge :: "'a list \<Rightarrow> 'a BTreeNode list \<Rightarrow> nat \<Rightarrow> 'a BTreeNode" where
  "spec_merge pkeys pchildren i =
     (if i \<noteq> 0 then merge_at pkeys pchildren (i - 1) else merge_at pkeys pchildren i)"

section \<open>The invariant of the tree\<close>

text \<open>
  \<open>min_keys\<close> is the least number of keys of a node other than the root.
  \<open>node_inv t m h n\<close>: the subtree \<open>n\<close> has all its leaves at depth \<open>h\<close>, every internal
  node of it has one more child than keys, \<open>n\<close> itself holds at least \<open>m\<close> keys and
  every node below it at least \<open>t\<close>.
\<close>

definition min_keys :: "int \<Rightarrow> nat" where
  "min_keys ord = nat ((ord - 1) div 2)"

fun node_inv :: "nat \<Rightarrow> nat \<Rightarrow> nat \<Rightarrow> 'a BTreeNode \<Rightarrow> bool" where
  "node_inv t m 0 n = (children n = [] \<and> m \<le> length (keys n))"
| "node_inv t m (Suc h) n =
     (length (children n) = Suc (length (keys n)) \<and> m \<le> length (keys n)
      \<and> (\<forall>c\<in>set (children n). node_inv t t h c))"

text \<open>
  The keys of a subtree in order, for a subtree of that shape (where it is what the
  traversal yields): the children and the keys alternate. \<open>interL\<close> alternates child,
  key, child, key; \<open>interR\<close> key, child, key, child.
\<close>

fun interL :: "'a list \<Rightarrow> 'a list list \<Rightarrow> 'a list" where
  "interL (k # ks) (x # xs) = x @ k # interL ks xs"
| "interL _ _ = []"

fun interR :: "'a list \<Rightarrow> 'a list list \<Rightarrow> 'a list" where
  "interR (k # ks) (x # xs) = k # x @ interR ks xs"
| "interR _ _ = []"

fun inorder :: "'a BTreeNode \<Rightarrow> 'a list" where
  "inorder (BTreeNode ks cs) = (case map inorder cs of [] \<Rightarrow> ks | x # xs \<Rightarrow> x @ interR ks xs)"

text \<open>
  What a node must hold at least: a key if it is an internal root, nothing if it is a
  root that is a leaf, \<open>t\<close> keys otherwise. \<open>path_inv t h path\<close>: every ancestor recorded
  in the path has the shape and the keys of the invariant, and so have its children other
  than the one in the slot that the path goes through, for a subtree of height \<open>h\<close> in
  the slot of the nearest ancestor.
\<close>

definition need :: "nat \<Rightarrow> bool \<Rightarrow> nat \<Rightarrow> nat" where
  "need t at_root h = (if at_root then (if h = 0 then 0 else 1) else t)"

fun path_inv :: "nat \<Rightarrow> nat \<Rightarrow> 'a path \<Rightarrow> bool" where
  "path_inv t h [] = True"
| "path_inv t h ((p, i) # path) =
     (i < length (children p) \<and> length (children p) = Suc (length (keys p))
      \<and> (\<forall>c\<in>set (take i (children p)) \<union> set (drop (Suc i) (children p)). node_inv t t h c)
      \<and> need t (path = []) (Suc h) \<le> length (keys p)
      \<and> path_inv t (Suc h) path)"

text \<open>
  The keys of the tree that come before and after the subtree in the slot of the nearest
  ancestor, and the ordering of a key between them that the descent of \<open>insert\<close> keeps.
\<close>

fun path_left :: "'a path \<Rightarrow> 'a list" where
  "path_left [] = []"
| "path_left ((p, i) # path) =
     path_left path @ interL (take i (keys p)) (map inorder (take i (children p)))"

fun path_right :: "'a path \<Rightarrow> 'a list" where
  "path_right [] = []"
| "path_right ((p, i) # path) =
     interR (drop i (keys p)) (map inorder (drop (Suc i) (children p))) @ path_right path"

definition bounds :: "'a::linorder \<Rightarrow> 'a path \<Rightarrow> bool" where
  "bounds k path = ((\<forall>x\<in>set (path_left path). x < k) \<and> (\<forall>x\<in>set (path_right path). k \<le> x))"

text \<open>
  The invariant of a tree, its keys in order, and the trees whose keys in order are
  strictly ascending.
\<close>

definition tree_inv :: "'a BTree \<Rightarrow> bool" where
  "tree_inv T =
     (case root T of None \<Rightarrow> True
      | Some r \<Rightarrow> (\<exists>h. node_inv (min_keys (order T)) (need (min_keys (order T)) True h) h r))"

definition tree_list :: "'a BTree \<Rightarrow> 'a list" where
  "tree_list T = (case root T of None \<Rightarrow> [] | Some r \<Rightarrow> inorder r)"

definition good :: "'a::linorder BTree \<Rightarrow> bool" where
  "good T = (tree_inv T \<and> sorted (tree_list T) \<and> distinct (tree_list T))"

section \<open>Basic facts\<close>

declare search_node.simps [simp del] insert_descend.simps [simp del]
  remove_descend.simps [simp del] descend_leftmost.simps [simp del]
  leftmost_leaf.simps [simp del] without_first_key.simps [simp del]

text \<open>
  The defining equations of the recursive descents are unfolded by hand, one step at a
  time.
\<close>

lemma curr_key_idx_le: "curr_key_idx k ks \<le> length ks"
  by (induction ks) auto

lemma curr_key_idx_less: "x \<in> set (take (curr_key_idx k ks) ks) \<Longrightarrow> x < k"
  by (induction ks) (auto split: if_splits)

lemma curr_key_idx_ge: "curr_key_idx k ks < length ks \<Longrightarrow> k \<le> ks ! curr_key_idx k ks"
  by (induction ks) (auto split: if_splits)

lemma curr_key_idx_found:
  fixes k :: "'a::linorder"
  shows "sorted ks \<Longrightarrow> k \<in> set ks \<Longrightarrow>
         curr_key_idx k ks < length ks \<and> ks ! curr_key_idx k ks = k"
  by (induction ks) (auto split: if_splits)

lemma keys_of_child: "c \<in> set (children n) \<Longrightarrow> keys_of c \<subseteq> keys_of n"
  by (cases n) auto

lemma keys_of_keys: "set (keys n) \<subseteq> keys_of n"
  by (cases n) auto

lemma well_formed_child: "well_formed n \<Longrightarrow> c \<in> set (children n) \<Longrightarrow> well_formed c"
  by (cases n) auto

lemma well_formed_length:
  "well_formed n \<Longrightarrow> children n \<noteq> [] \<Longrightarrow> length (children n) = Suc (length (keys n))"
  by (cases n) auto

lemma subtrees_self: "n \<in> subtrees n"
  by (cases n) simp

lemma subtrees_child: "c \<in> set (children n) \<Longrightarrow> x \<in> subtrees c \<Longrightarrow> x \<in> subtrees n"
  by (cases n) auto

lemma slice_to_nonneg: "0 \<le> i \<Longrightarrow> slice_to i xs = take (nat i) xs"
  by (simp add: slice_to_def py_bound_def min_def)

lemma slice_from_nonneg: "0 \<le> i \<Longrightarrow> slice_from i xs = drop (nat i) xs"
  by (simp add: slice_from_def py_bound_def min_def)

lemma py_get_nonneg: "0 \<le> i \<Longrightarrow> nat i < length xs \<Longrightarrow> py_get xs i = Some (xs ! nat i)"
  by (auto simp: py_get_def)

lemma min_keys_bounds: "3 \<le> ord \<Longrightarrow> 1 \<le> min_keys ord \<and> 2 * int (min_keys ord) \<le> ord - 1"
  by (auto simp: min_keys_def)

lemma underflowing_iff:
  "1 \<le> ord \<Longrightarrow> is_node_underflowing ord False n \<longleftrightarrow> length (keys n) < min_keys ord"
  by (auto simp: is_node_underflowing_def min_keys_def)

lemma populous_iff:
  "1 \<le> ord \<Longrightarrow> is_node_populous ord False n \<longleftrightarrow> min_keys ord < length (keys n)"
  by (auto simp: is_node_populous_def min_keys_def)

lemma need_pos: "1 \<le> t \<Longrightarrow> 1 \<le> need t b (Suc h)"
  by (simp add: need_def)

lemma need_le: "1 \<le> t \<Longrightarrow> need t True h \<le> t"
  by (simp add: need_def)

lemma node_inv_mono: "node_inv t m h n \<Longrightarrow> m' \<le> m \<Longrightarrow> node_inv t m' h n"
  by (cases h) auto

lemma node_inv_raise: "node_inv t m h n \<Longrightarrow> m' \<le> length (keys n) \<Longrightarrow> node_inv t m' h n"
  by (cases h) auto

lemma distinct_keys_take: "distinct_keys present ops \<Longrightarrow> distinct_keys present (take n ops)"
proof (induction ops arbitrary: present n)
  case Nil
  then show ?case by simp
next
  case (Cons x ops)
  then show ?case by (cases n; cases x) auto
qed

section \<open>The keys of a subtree in order\<close>

text \<open>
  How the keys in order of a node decompose around one of its children, and how they
  compose when a node is cut at a key or two nodes are joined around a key.
\<close>

lemma interL_append:
  "length ks = length xs \<Longrightarrow> interL (ks @ ks') (xs @ xs') = interL ks xs @ interL ks' xs'"
  by (induction ks xs rule: list_induct2) auto

lemma interR_append:
  "length ks = length xs \<Longrightarrow> interR (ks @ ks') (xs @ xs') = interR ks xs @ interR ks' xs'"
  by (induction ks xs rule: list_induct2) auto

lemma interL_snoc:
  "length ks = length xs \<Longrightarrow> interL (ks @ [k]) (xs @ [x]) = interL ks xs @ x @ [k]"
  by (simp add: interL_append)

lemma interL_last:
  "length ks = length xs \<Longrightarrow> ks \<noteq> [] \<Longrightarrow> \<exists>ys. interL ks xs = ys @ [last ks]"
proof (induction ks xs rule: list_induct2)
  case Nil
  then show ?case by simp
next
  case (Cons k ks x xs)
  show ?case
  proof (cases "ks = []")
    case True
    then show ?thesis using Cons by simp
  next
    case False
    with Cons obtain ys where "interL ks xs = ys @ [last ks]" by blast
    then show ?thesis using False by simp
  qed
qed

lemma interR_hd:
  "length ks = length xs \<Longrightarrow> ks \<noteq> [] \<Longrightarrow> \<exists>ys. interR ks xs = hd ks # ys"
  by (cases ks; cases xs) auto

lemma set_interL:
  "length ks = length xs \<Longrightarrow> set (interL ks xs) = set ks \<union> \<Union> (set ` set xs)"
  by (induction ks xs rule: list_induct2) auto

lemma set_interR:
  "length ks = length xs \<Longrightarrow> set (interR ks xs) = set ks \<union> \<Union> (set ` set xs)"
  by (induction ks xs rule: list_induct2) auto

lemma inorder_leaf [simp]: "inorder (BTreeNode ks []) = ks"
  by simp

lemma inorder_childless: "children n = [] \<Longrightarrow> inorder n = keys n"
  by (cases n) simp

lemma inter_mid:
  "length lk = length ls \<Longrightarrow>
   (case ls @ c # rs of [] \<Rightarrow> lk @ rk | x # xs \<Rightarrow> x @ interR (lk @ rk) xs)
     = interL lk ls @ c @ interR rk rs"
proof (induction lk ls rule: list_induct2)
  case Nil
  then show ?case by simp
next
  case (Cons k lk l ls)
  then show ?case
    by (cases ls; cases lk) auto
qed

lemma inorder_node:
  "length lk = length ls \<Longrightarrow>
   inorder (BTreeNode (lk @ rk) (ls @ c # rs))
     = interL lk (map inorder ls) @ inorder c @ interR rk (map inorder rs)"
  using inter_mid [where lk=lk and ls="map inorder ls" and c="inorder c" and rs="map inorder rs" and rk=rk] by simp

lemma inorder_join:
  "length lcs = Suc (length lk) \<Longrightarrow> rcs \<noteq> [] \<Longrightarrow>
   inorder (BTreeNode (lk @ k # rk) (lcs @ rcs))
     = inorder (BTreeNode lk lcs) @ k # inorder (BTreeNode rk rcs)"
proof -
  assume a: "length lcs = Suc (length lk)" and b: "rcs \<noteq> []"
  obtain c0 lcs' where l: "lcs = c0 # lcs'" using a by (cases lcs) auto
  obtain r0 rcs' where r: "rcs = r0 # rcs'" using b by (cases rcs) auto
  have len: "length lk = length (map inorder lcs')" using a l by simp
  show ?thesis
    using interR_append [OF len, of "k # rk" "map inorder (r0 # rcs')"]
    by (simp add: l r)
qed

lemma split_at_child:
  assumes "i < length cs" "length cs = Suc (length ks)"
  obtains ls c rs lk rk where "cs = ls @ c # rs" "ks = lk @ rk" "i = length ls"
    "length lk = length ls" "length rk = length rs"
proof -
  have "cs = take i cs @ cs ! i # drop (Suc i) cs"
    using assms(1) by (simp add: id_take_nth_drop)
  moreover have "ks = take i ks @ drop i ks" by simp
  moreover have "i = length (take i cs)" "length (take i ks) = length (take i cs)"
    "length (drop i ks) = length (drop (Suc i) cs)"
    using assms by auto
  ultimately show ?thesis using that by blast
qed

lemma inorder_view:
  assumes "i < length (children n)" "length (children n) = Suc (length (keys n))"
  shows "inorder n = interL (take i (keys n)) (map inorder (take i (children n)))
                     @ inorder (children n ! i)
                     @ interR (drop i (keys n)) (map inorder (drop (Suc i) (children n)))"
proof -
  from split_at_child [OF assms] obtain ls c rs lk rk where
    d: "children n = ls @ c # rs" "keys n = lk @ rk" "i = length ls" "length lk = length ls"
       "length rk = length rs" by metis
  have "n = BTreeNode (lk @ rk) (ls @ c # rs)" using d by (cases n) simp
  then show ?thesis
    using d inorder_node [of lk ls rk c rs] by (simp del: inorder.simps)
qed

lemma inorder_update:
  assumes "i < length cs" and "length cs = Suc (length ks)"
  shows "inorder (BTreeNode ks (cs[i := n]))
           = interL (take i ks) (map inorder (take i cs)) @ inorder n
             @ interR (drop i ks) (map inorder (drop (Suc i) cs))"
  using inorder_view [of i "BTreeNode ks (cs[i := n])"] assms by (simp del: inorder.simps)

lemma cut_inorder:
  assumes "cs = [] \<or> length cs = Suc (length ks)" and "m < length ks"
  shows "inorder (BTreeNode ks cs)
           = inorder (BTreeNode (take m ks) (take (Suc m) cs)) @ ks ! m
               # inorder (BTreeNode (drop (Suc m) ks) (drop (Suc m) cs))"
proof (cases "cs = []")
  case True
  then show ?thesis using assms(2) by (simp add: id_take_nth_drop [symmetric])
next
  case False
  then have len: "length cs = Suc (length ks)" using assms(1) by simp
  have ne: "drop (Suc m) cs \<noteq> []" using len assms(2) by simp
  have l: "length (take (Suc m) cs) = Suc (length (take m ks))" using len assms(2) by simp
  have "inorder (BTreeNode (take m ks @ ks ! m # drop (Suc m) ks) (take (Suc m) cs @ drop (Suc m) cs))
      = inorder (BTreeNode (take m ks) (take (Suc m) cs)) @ ks ! m
          # inorder (BTreeNode (drop (Suc m) ks) (drop (Suc m) cs))"
    by (rule inorder_join [OF l ne])
  then show ?thesis using assms(2) by (simp add: id_take_nth_drop [symmetric])
qed

lemma cut_inv:
  assumes "node_inv t m0 h (BTreeNode ks cs)" and "m < length ks" and "a \<le> m"
    and "b + m < length ks"
  shows "node_inv t a h (BTreeNode (take m ks) (take (Suc m) cs))"
    and "node_inv t b h (BTreeNode (drop (Suc m) ks) (drop (Suc m) cs))"
  using assms by (cases h; auto dest: in_set_takeD in_set_dropD)+

lemma join_inv:
  assumes "node_inv t ml h l" and "node_inv t mr h r"
    and "m \<le> Suc (length (keys l) + length (keys r))"
  shows "node_inv t m h (BTreeNode (keys l @ s # keys r) (children l @ children r))"
  using assms by (cases h) auto

lemma join_inorder:
  assumes "node_inv t ml h l" and "node_inv t mr h r"
  shows "inorder (BTreeNode (keys l @ s # keys r) (children l @ children r))
           = inorder l @ s # inorder r"
proof (cases h)
  case 0
  then show ?thesis using assms by (simp add: inorder_childless)
next
  case (Suc h')
  then have l: "length (children l) = Suc (length (keys l))" and ne: "children r \<noteq> []"
    using assms by auto
  show ?thesis using inorder_join [OF l ne, of s "keys r"] by (simp del: inorder.simps)
qed

lemma keys_of_inorder: "node_inv t m h n \<Longrightarrow> keys_of n = set (inorder n)"
proof (induction h arbitrary: n m)
  case 0
  then show ?case by (cases n) simp
next
  case (Suc h)
  obtain ks cs where n: "n = BTreeNode ks cs" by (cases n)
  from Suc.prems n have len: "length cs = Suc (length ks)"
    and ch: "\<forall>c\<in>set cs. node_inv t t h c" by auto
  obtain c cs' where cs: "cs = c # cs'" using len by (cases cs) auto
  have l: "length ks = length (map inorder cs')" using len cs by simp
  have "\<forall>c\<in>set cs. keys_of c = set (inorder c)" using ch Suc.IH by blast
  then show ?case using n cs set_interR [OF l] by auto
qed

lemma weave_interL:
  "length ks \<le> length cs \<Longrightarrow> \<forall>c\<in>set cs. f c = Inr (g c) \<Longrightarrow>
   weave (map f cs) ks = Inr (interL ks (map g (take (length ks) cs)))"
proof (induction ks arbitrary: cs)
  case Nil
  then show ?case by simp
next
  case (Cons k ks)
  then obtain c cs' where cs: "cs = c # cs'" by (cases cs) auto
  then show ?case using Cons by simp
qed

lemma node_traverse_inorder_eq:
  "node_inv t m h n \<Longrightarrow> node_traverse_inorder n = Inr (inorder n)"
proof (induction h arbitrary: n m)
  case 0
  then show ?case by (cases n) simp
next
  case (Suc h)
  obtain ks cs where n: "n = BTreeNode ks cs" by (cases n)
  from Suc.prems n have len: "length cs = Suc (length ks)"
    and ch: "\<forall>c\<in>set cs. node_inv t t h c" by auto
  have all: "\<forall>c\<in>set cs. node_traverse_inorder c = Inr (inorder c)"
    using ch Suc.IH by blast
  have ne: "cs \<noteq> []" using len by auto
  have w: "weave (map node_traverse_inorder cs) ks
             = Inr (interL ks (map inorder (take (length ks) cs)))"
    using weave_interL [of ks cs node_traverse_inorder inorder] len all by simp
  have l: "last (map node_traverse_inorder cs) = Inr (inorder (last cs))"
    using ne all by (simp add: last_map)
  have il: "length ks < length cs" using len by simp
  have v: "inorder n = interL ks (map inorder (take (length ks) cs)) @ inorder (cs ! length ks)"
    using inorder_view [of "length ks" n] len n by simp
  have "last cs = cs ! length ks" using len ne by (simp add: last_conv_nth)
  then show ?case using n ne w l v by (simp del: inorder.simps)
qed

section \<open>A node in its path\<close>

text \<open>
  Writing a node into the slot that a path leads to gives a tree with the invariant, whose
  keys in order are those before the slot, those of the node and those after the slot.
\<close>

lemma plug_inorder:
  "path_inv t h path \<Longrightarrow> inorder (plug n path) = path_left path @ inorder n @ path_right path"
proof (induction path arbitrary: n h)
  case Nil
  then show ?case by simp
next
  case (Cons f path)
  obtain p i where f: "f = (p, i)" by (cases f)
  from Cons.prems f have i: "i < length (children p)"
    and len: "length (children p) = Suc (length (keys p))"
    and rest: "path_inv t (Suc h) path" by auto
  from split_at_child [OF i len] obtain ls c rs lk rk where
    d: "children p = ls @ c # rs" "keys p = lk @ rk" "i = length ls" "length lk = length ls"
       "length rk = length rs" by metis
  have "inorder (BTreeNode (keys p) ((children p)[i := n]))
      = interL (take i (keys p)) (map inorder (take i (children p))) @ inorder n
        @ interR (drop i (keys p)) (map inorder (drop (Suc i) (children p)))"
    using d inorder_node [of lk ls rk n rs] by (simp add: list_update_append)
  then show ?case
    using Cons.IH [OF rest] f by simp
qed

lemma plug_inv:
  "path_inv t h path \<Longrightarrow> node_inv t (need t (path = []) h) h n \<Longrightarrow>
   \<exists>H. node_inv t (need t True H) H (plug n path)"
proof (induction path arbitrary: n h)
  case Nil
  then show ?case by auto
next
  case (Cons f path)
  obtain p i where f: "f = (p, i)" by (cases f)
  from Cons.prems f have i: "i < length (children p)"
    and len: "length (children p) = Suc (length (keys p))"
    and sib: "\<forall>c\<in>set (take i (children p)) \<union> set (drop (Suc i) (children p)). node_inv t t h c"
    and nd: "need t (path = []) (Suc h) \<le> length (keys p)"
    and rest: "path_inv t (Suc h) path" by auto
  have n: "node_inv t t h n" using Cons.prems(2) by (simp add: need_def)
  have "set ((children p)[i := n]) \<subseteq> insert n (set (take i (children p)) \<union> set (drop (Suc i) (children p)))"
    using i by (auto simp: upd_conv_take_nth_drop)
  then have "node_inv t (need t (path = []) (Suc h)) (Suc h) (BTreeNode (keys p) ((children p)[i := n]))"
    using len nd sib n by auto
  from Cons.IH [OF rest this] show ?case using f by simp
qed

section \<open>Where the key scan leads\<close>

text \<open>
  In a node whose keys in order are sorted, the keys before the child that the scan
  chooses are smaller than the key looked for, and the keys after it are not.
\<close>

lemma left_part_less:
  fixes k :: "'a::linorder"
  assumes "sorted (interL (take (curr_key_idx k ks) ks) xs)"
    and "length xs = curr_key_idx k ks"
  shows "\<forall>x\<in>set (interL (take (curr_key_idx k ks) ks) xs). x < k"
proof (cases "curr_key_idx k ks = 0")
  case True
  then show ?thesis by simp
next
  case False
  let ?i = "curr_key_idx k ks"
  have le: "?i \<le> length ks" by (rule curr_key_idx_le)
  have ne: "take ?i ks \<noteq> []" using False le by auto
  have len: "length (take ?i ks) = length xs" using assms(2) le by simp
  from interL_last [OF len ne] obtain ys where ys: "interL (take ?i ks) xs = ys @ [last (take ?i ks)]"
    by blast
  have "last (take ?i ks) \<in> set (take ?i ks)" using ne by simp
  then have "last (take ?i ks) < k" by (rule curr_key_idx_less)
  moreover have "\<forall>x\<in>set ys. x \<le> last (take ?i ks)"
    using assms(1) ys by (simp add: sorted_append)
  ultimately show ?thesis using ys by auto
qed

lemma right_part_ge:
  fixes k :: "'a::linorder"
  assumes "sorted (interR (drop (curr_key_idx k ks) ks) xs)"
    and "length xs = length ks - curr_key_idx k ks"
  shows "\<forall>x\<in>set (interR (drop (curr_key_idx k ks) ks) xs). k \<le> x"
proof (cases "curr_key_idx k ks < length ks")
  case False
  then show ?thesis by simp
next
  case True
  let ?i = "curr_key_idx k ks"
  have ne: "drop ?i ks \<noteq> []" using True by simp
  have len: "length (drop ?i ks) = length xs" using assms(2) by simp
  from interR_hd [OF len ne] obtain ys where ys: "interR (drop ?i ks) xs = hd (drop ?i ks) # ys"
    by blast
  have "hd (drop ?i ks) = ks ! ?i" using True by (simp add: hd_drop_conv_nth)
  then have "k \<le> hd (drop ?i ks)" using curr_key_idx_ge [OF True] by simp
  moreover have "\<forall>x\<in>set ys. hd (drop ?i ks) \<le> x"
    using assms(1) ys by simp
  ultimately show ?thesis using ys by auto
qed

lemma right_part_gt:
  fixes k :: "'a::linorder"
  assumes "sorted (interR (drop (curr_key_idx k ks) ks) xs)"
    and "length xs = length ks - curr_key_idx k ks"
    and "\<not> (curr_key_idx k ks < length ks \<and> k = ks ! curr_key_idx k ks)"
  shows "\<forall>x\<in>set (interR (drop (curr_key_idx k ks) ks) xs). k < x"
proof (cases "curr_key_idx k ks < length ks")
  case False
  then show ?thesis by simp
next
  case True
  let ?i = "curr_key_idx k ks"
  have ne: "drop ?i ks \<noteq> []" using True by simp
  have len: "length (drop ?i ks) = length xs" using assms(2) by simp
  from interR_hd [OF len ne] obtain ys where ys: "interR (drop ?i ks) xs = hd (drop ?i ks) # ys"
    by blast
  have "hd (drop ?i ks) = ks ! ?i" using True by (simp add: hd_drop_conv_nth)
  then have "k < hd (drop ?i ks)" using curr_key_idx_ge [OF True] assms(3) True by auto
  moreover have "\<forall>x\<in>set ys. hd (drop ?i ks) \<le> x"
    using assms(1) ys by simp
  ultimately show ?thesis using ys by auto
qed

lemma bounds_step:
  fixes k :: "'a::linorder"
  assumes len: "length (children n) = Suc (length (keys n))"
    and i: "i = curr_key_idx k (keys n)"
    and srt: "sorted (path_left path @ inorder n @ path_right path)"
    and b: "bounds k path"
  shows "bounds k ((n, i) # path)"
proof -
  have il: "i < length (children n)" using len i curr_key_idx_le [of k "keys n"] by simp
  note v = inorder_view [OF il len]
  let ?L = "interL (take i (keys n)) (map inorder (take i (children n)))"
  let ?R = "interR (drop i (keys n)) (map inorder (drop (Suc i) (children n)))"
  have "sorted (inorder n)" using srt by (simp add: sorted_append)
  then have sl: "sorted ?L" and sr: "sorted ?R" using v by (simp_all add: sorted_append)
  have "\<forall>x\<in>set ?L. x < k"
    using left_part_less [of k "keys n" "map inorder (take i (children n))"] sl i il by simp
  moreover have "\<forall>x\<in>set ?R. k \<le> x"
    using right_part_ge [of k "keys n" "map inorder (drop (Suc i) (children n))"] sr i len by simp
  ultimately show ?thesis using b by (auto simp: bounds_def)
qed

lemma key_in_child:
  fixes k :: "'a::linorder"
  assumes len: "length (children n) = Suc (length (keys n))"
    and srt: "sorted (inorder n)" and mem: "k \<in> set (inorder n)"
    and nf: "\<not> (curr_key_idx k (keys n) < length (keys n)
               \<and> k = keys n ! curr_key_idx k (keys n))"
  shows "k \<in> set (inorder (children n ! curr_key_idx k (keys n)))"
    and "sorted (inorder (children n ! curr_key_idx k (keys n)))"
proof -
  let ?i = "curr_key_idx k (keys n)"
  have il: "?i < length (children n)" using len curr_key_idx_le [of k "keys n"] by simp
  note v = inorder_view [OF il len]
  let ?L = "interL (take ?i (keys n)) (map inorder (take ?i (children n)))"
  let ?R = "interR (drop ?i (keys n)) (map inorder (drop (Suc ?i) (children n)))"
  have sl: "sorted ?L" and sr: "sorted ?R" and sc: "sorted (inorder (children n ! ?i))"
    using srt v by (simp_all add: sorted_append)
  have "\<forall>x\<in>set ?L. x < k"
    using left_part_less [of k "keys n" "map inorder (take ?i (children n))"] sl il by simp
  moreover have "\<forall>x\<in>set ?R. k < x"
    using right_part_gt [of k "keys n" "map inorder (drop (Suc ?i) (children n))"] sr len nf
    by simp
  ultimately show "k \<in> set (inorder (children n ! ?i))" using mem v by auto
  show "sorted (inorder (children n ! ?i))" by (rule sc)
qed

section \<open>Insertion keeps the invariant\<close>

text \<open>
  The descent reaches a leaf; the walk back splits the nodes that hold too many keys, and
  the keys in order are those of the tree with the new key among them.
\<close>

lemma split_node_eq:
  assumes "1 \<le> ord" "ord - 1 < int (length (keys n))"
  shows "split_node ord n =
           Some (BTreeNode (take (min_keys ord) (keys n)) (take (Suc (min_keys ord)) (children n)),
                 keys n ! min_keys ord,
                 BTreeNode (drop (Suc (min_keys ord)) (keys n))
                           (drop (Suc (min_keys ord)) (children n)))"
proof -
  have nn: "0 \<le> (ord - 1) div 2" using assms(1) by simp
  have lt: "nat ((ord - 1) div 2) < length (keys n)" using assms by linarith
  have suc: "nat ((ord - 1) div 2 + 1) = Suc (nat ((ord - 1) div 2))" using nn by simp
  show ?thesis
    using nn lt
    by (simp add: split_node_def Let_def slice_to_nonneg slice_from_nonneg py_get_nonneg
        min_keys_def suc)
qed

lemma split_inv:
  assumes ord: "3 \<le> ord" and t: "t = min_keys ord"
    and inv: "node_inv t m h n" and over: "ord - 1 < int (length (keys n))"
  shows "node_inv t t h (BTreeNode (take t (keys n)) (take (Suc t) (children n)))"
    and "node_inv t t h (BTreeNode (drop (Suc t) (keys n)) (drop (Suc t) (children n)))"
    and "inorder n = inorder (BTreeNode (take t (keys n)) (take (Suc t) (children n)))
                      @ keys n ! t # inorder (BTreeNode (drop (Suc t) (keys n)) (drop (Suc t) (children n)))"
proof -
  obtain ks cs where n: "n = BTreeNode ks cs" by (cases n)
  have b: "1 \<le> t" "2 * int t \<le> ord - 1" using min_keys_bounds [OF ord] t by auto
  then have lt: "t < length ks" and big: "2 * t < length ks" using over n by auto
  have ks: "ks = take t ks @ ks ! t # drop (Suc t) ks"
    using lt by (simp add: id_take_nth_drop)
  show "node_inv t t h (BTreeNode (take t (keys n)) (take (Suc t) (children n)))"
    using inv n lt by (cases h) (auto dest: in_set_takeD)
  show "node_inv t t h (BTreeNode (drop (Suc t) (keys n)) (drop (Suc t) (children n)))"
    using inv n lt big by (cases h) (auto dest: in_set_dropD)
  show "inorder n = inorder (BTreeNode (take t (keys n)) (take (Suc t) (children n)))
                      @ keys n ! t # inorder (BTreeNode (drop (Suc t) (keys n)) (drop (Suc t) (children n)))"
  proof (cases h)
    case 0
    then show ?thesis using inv n ks by simp
  next
    case (Suc h')
    then have len: "length cs = Suc (length ks)" using inv n by simp
    have ne: "drop (Suc t) cs \<noteq> []" using len lt by simp
    have l: "length (take (Suc t) cs) = Suc (length (take t ks))" using len lt by simp
    have "inorder (BTreeNode (take t ks @ ks ! t # drop (Suc t) ks) (take (Suc t) cs @ drop (Suc t) cs))
        = inorder (BTreeNode (take t ks) (take (Suc t) cs)) @ ks ! t
            # inorder (BTreeNode (drop (Suc t) ks) (drop (Suc t) cs))"
      by (rule inorder_join [OF l ne])
    then show ?thesis using ks n by simp
  qed
qed

lemma promote_eq:
  assumes "i < length (children p)"
  shows "promote p i l k r = BTreeNode (take i (keys p) @ k # drop i (keys p))
                                       (take i (children p) @ l # r # drop (Suc i) (children p))"
proof -
  have "children p = take i (children p) @ children p ! i # drop (Suc i) (children p)"
    using assms by (simp add: id_take_nth_drop)
  then obtain ls c rs where d: "children p = ls @ c # rs" "length ls = i"
    using assms by (metis length_take min.absorb2 less_imp_le_nat)
  show ?thesis
    using d by (simp add: promote_def insert_key_def Let_def list_update_append)
qed

lemma promote_inv:
  assumes i: "i < length (children p)" and len: "length (children p) = Suc (length (keys p))"
    and sib: "\<forall>c\<in>set (take i (children p)) \<union> set (drop (Suc i) (children p)). node_inv t t h c"
    and m: "m \<le> length (keys p)"
    and l: "node_inv t t h l" and r: "node_inv t t h r"
  shows "node_inv t m (Suc h) (promote p i l k r)"
    and "inorder (promote p i l k r)
          = interL (take i (keys p)) (map inorder (take i (children p)))
            @ (inorder l @ k # inorder r)
            @ interR (drop i (keys p)) (map inorder (drop (Suc i) (children p)))"
proof -
  have li: "length (take i (keys p)) = length (take i (children p))" using i len by simp
  show "node_inv t m (Suc h) (promote p i l k r)"
    using i len sib m l r by (auto simp: promote_eq)
  show "inorder (promote p i l k r)
          = interL (take i (keys p)) (map inorder (take i (children p)))
            @ (inorder l @ k # inorder r)
            @ interR (drop i (keys p)) (map inorder (drop (Suc i) (children p)))"
    using inorder_node [OF li, of "k # drop i (keys p)" l "r # drop (Suc i) (children p)"]
    by (simp add: promote_eq [OF i])
qed

lemma fix_insert_inv:
  assumes ord: "3 \<le> ord" and t: "t = min_keys ord"
  shows "path_inv t h path \<Longrightarrow> node_inv t (need t (path = []) h) h cur \<Longrightarrow>
         \<exists>r H. fix_insert ord cur path = (None, r) \<and> node_inv t (need t True H) H r
               \<and> inorder r = path_left path @ inorder cur @ path_right path"
proof (induction path arbitrary: cur h)
  case Nil
  show ?case
  proof (cases "int (length (keys cur)) \<le> ord - 1")
    case True
    then show ?thesis using Nil.prems by auto
  next
    case False
    then have over: "ord - 1 < int (length (keys cur))" by simp
    note s = split_inv [OF ord t Nil.prems(2) over]
    let ?l = "BTreeNode (take t (keys cur)) (take (Suc t) (children cur))"
    let ?r = "BTreeNode (drop (Suc t) (keys cur)) (drop (Suc t) (children cur))"
    let ?root = "BTreeNode [keys cur ! t] [?l, ?r]"
    have fi: "fix_insert ord cur [] = (None, ?root)"
      using False split_node_eq [of ord cur] ord over t by simp
    have inv: "node_inv t (need t True (Suc h)) (Suc h) ?root"
      using s(1,2) by (simp add: need_def)
    have io: "inorder ?root = path_left [] @ inorder cur @ path_right []"
      using s(3) by simp
    show ?thesis using fi inv io by blast
  qed
next
  case (Cons f path)
  obtain p i where f: "f = (p, i)" by (cases f)
  from Cons.prems f have i: "i < length (children p)"
    and len: "length (children p) = Suc (length (keys p))"
    and sib: "\<forall>c\<in>set (take i (children p)) \<union> set (drop (Suc i) (children p)). node_inv t t h c"
    and nd: "need t (path = []) (Suc h) \<le> length (keys p)"
    and rest: "path_inv t (Suc h) path" by auto
  show ?case
  proof (cases "int (length (keys cur)) \<le> ord - 1")
    case True
    then have "fix_insert ord cur (f # path) = (None, plug cur (f # path))"
      using f by simp
    then show ?thesis
      using plug_inv [OF Cons.prems] plug_inorder [OF Cons.prems(1)] by simp
  next
    case False
    then have over: "ord - 1 < int (length (keys cur))" by simp
    note s = split_inv [OF ord t Cons.prems(2) over]
    let ?l = "BTreeNode (take t (keys cur)) (take (Suc t) (children cur))"
    let ?r = "BTreeNode (drop (Suc t) (keys cur)) (drop (Suc t) (children cur))"
    let ?p = "promote p i ?l (keys cur ! t) ?r"
    note pr = promote_inv [OF i len sib nd s(1) s(2), of "keys cur ! t"]
    have step: "fix_insert ord cur (f # path) = fix_insert ord ?p path"
      using False f i split_node_eq [of ord cur] ord over t by simp
    from Cons.IH [OF rest pr(1)] obtain r H where
      r: "fix_insert ord ?p path = (None, r)" "node_inv t (need t True H) H r"
         "inorder r = path_left path @ inorder ?p @ path_right path" by blast
    have "inorder r = path_left (f # path) @ inorder cur @ path_right (f # path)"
      using r(3) pr(2) s(3) f by simp
    with r(1,2) step show ?thesis by auto
  qed
qed

lemma insert_descend_inv:
  fixes k :: "'a::linorder"
  shows "path_inv t h path \<Longrightarrow> node_inv t (need t (path = []) h) h n \<Longrightarrow>
   \<exists>leaf path'. insert_descend k n path = Inr (leaf, curr_key_idx k (keys leaf), path')
      \<and> path_inv t 0 path' \<and> node_inv t (need t (path' = []) 0) 0 leaf
      \<and> path_left path' @ inorder leaf @ path_right path'
          = path_left path @ inorder n @ path_right path
      \<and> (sorted (path_left path @ inorder n @ path_right path) \<longrightarrow> bounds k path
           \<longrightarrow> bounds k path')"
proof (induction h arbitrary: n path)
  case 0
  then have "is_leaf n" by (simp add: is_leaf_def)
  then have "insert_descend k n path = Inr (n, curr_key_idx k (keys n), path)"
    by (subst insert_descend.simps) (simp add: Let_def)
  then show ?case using 0 by blast
next
  case (Suc h)
  let ?i = "curr_key_idx k (keys n)"
  from Suc.prems(2) have len: "length (children n) = Suc (length (keys n))"
    and nd: "need t (path = []) (Suc h) \<le> length (keys n)"
    and ch: "\<forall>c\<in>set (children n). node_inv t t h c" by auto
  have il: "?i < length (children n)" using len curr_key_idx_le [of k "keys n"] by simp
  have nl: "\<not> is_leaf n" using len by (simp add: is_leaf_def)
  have step: "insert_descend k n path = insert_descend k (children n ! ?i) ((n, ?i) # path)"
    using nl il by (subst insert_descend.simps) (simp add: Let_def)
  have pi: "path_inv t h ((n, ?i) # path)"
    using il len nd ch Suc.prems(1) by (auto dest: in_set_takeD in_set_dropD)
  have ci: "node_inv t (need t (((n, ?i) # path) = []) h) h (children n ! ?i)"
    using ch il by (simp add: need_def)
  from Suc.IH [OF pi ci] obtain leaf path' where
    r: "insert_descend k (children n ! ?i) ((n, ?i) # path)
          = Inr (leaf, curr_key_idx k (keys leaf), path')"
       "path_inv t 0 path'" "node_inv t (need t (path' = []) 0) 0 leaf"
       "path_left path' @ inorder leaf @ path_right path'
          = path_left ((n, ?i) # path) @ inorder (children n ! ?i) @ path_right ((n, ?i) # path)"
       "sorted (path_left ((n, ?i) # path) @ inorder (children n ! ?i) @ path_right ((n, ?i) # path))
          \<longrightarrow> bounds k ((n, ?i) # path) \<longrightarrow> bounds k path'"
    by blast
  have eq: "path_left ((n, ?i) # path) @ inorder (children n ! ?i) @ path_right ((n, ?i) # path)
      = path_left path @ inorder n @ path_right path"
    using inorder_view [OF il len] by simp
  have "sorted (path_left path @ inorder n @ path_right path) \<longrightarrow> bounds k path
           \<longrightarrow> bounds k path'"
  proof (intro impI)
    assume s: "sorted (path_left path @ inorder n @ path_right path)" and b: "bounds k path"
    have "bounds k ((n, ?i) # path)" by (rule bounds_step [OF len refl s b])
    moreover have "sorted (path_left ((n, ?i) # path) @ inorder (children n ! ?i)
                     @ path_right ((n, ?i) # path))"
      using s eq by metis
    ultimately show "bounds k path'" using r(5) by blast
  qed
  with r(1-4) eq step show ?case by auto
qed

lemma insert_root_inv:
  fixes k :: "'a::linorder"
  assumes ord: "3 \<le> ord" and t: "t = min_keys ord"
    and inv: "node_inv t (need t True h) h r" and srt: "sorted (inorder r)"
  shows "\<exists>leaf i path r' H L R. insert_descend k r [] = Inr (leaf, i, path)
           \<and> fix_insert ord (insert_key i k leaf) path = (None, r')
           \<and> node_inv t (need t True H) H r'
           \<and> inorder r = L @ R \<and> inorder r' = L @ k # R
           \<and> (\<forall>x\<in>set L. x < k) \<and> (\<forall>x\<in>set R. k \<le> x)"
proof -
  have p0: "path_inv t h []" by simp
  have n0: "node_inv t (need t ([] = ([] :: 'a path)) h) h r" using inv by simp
  from insert_descend_inv [OF p0 n0, of k] obtain leaf path where
    d: "insert_descend k r [] = Inr (leaf, curr_key_idx k (keys leaf), path)"
       "path_inv t 0 path" "node_inv t (need t (path = []) 0) 0 leaf"
       "path_left path @ inorder leaf @ path_right path = inorder r"
       "sorted (inorder r) \<longrightarrow> bounds k [] \<longrightarrow> bounds k path"
    by auto
  let ?i = "curr_key_idx k (keys leaf)"
  let ?leaf' = "insert_key ?i k leaf"
  have lf: "children leaf = []" using d(3) by simp
  have il: "inorder leaf = keys leaf" using lf by (rule inorder_childless)
  have lf': "?leaf' = BTreeNode (take ?i (keys leaf) @ k # drop ?i (keys leaf)) []"
    using lf by (simp add: insert_key_def)
  have inv': "node_inv t (need t (path = []) 0) 0 ?leaf'"
    using d(3) curr_key_idx_le [of k "keys leaf"] by (simp add: lf')
  from fix_insert_inv [OF ord t d(2) inv'] obtain r' H where
    f: "fix_insert ord ?leaf' path = (None, r')" "node_inv t (need t True H) H r'"
       "inorder r' = path_left path @ inorder ?leaf' @ path_right path" by blast
  let ?L = "path_left path @ take ?i (keys leaf)"
  let ?R = "drop ?i (keys leaf) @ path_right path"
  have b: "bounds k path" using d(5) srt by (simp add: bounds_def)
  have sk: "sorted (keys leaf)" using srt d(4) il by (metis sorted_append)
  have e1: "inorder r = ?L @ ?R" using d(4) il by (metis append.assoc append_take_drop_id)
  have e2: "inorder r' = ?L @ k # ?R" using f(3) lf' by simp
  have bl: "\<forall>x\<in>set ?L. x < k" using b curr_key_idx_less [of _ k "keys leaf"] by (auto simp: bounds_def)
  have "\<forall>x\<in>set (drop ?i (keys leaf)). k \<le> x"
  proof (cases "?i < length (keys leaf)")
    case True
    have "drop ?i (keys leaf) = keys leaf ! ?i # drop (Suc ?i) (keys leaf)"
      using True by (simp add: Cons_nth_drop_Suc)
    moreover have "sorted (drop ?i (keys leaf))" using sk by (simp add: sorted_wrt_drop)
    ultimately show ?thesis using curr_key_idx_ge [OF True] by (metis order_trans set_ConsD sorted_simps(2))
  next
    case False
    then show ?thesis by simp
  qed
  then have br: "\<forall>x\<in>set ?R. k \<le> x" using b by (auto simp: bounds_def)
  show ?thesis using d(1) f(1,2) e1 e2 bl br by blast
qed

lemma insert_tree_inv:
  fixes k :: "'a::linorder"
  assumes ord: "3 \<le> order T" and inv: "tree_inv T" and srt: "sorted (tree_list T)"
  shows "\<exists>T' L R. insert_tree (Some k) T = (None, T') \<and> order T' = order T \<and> tree_inv T'
           \<and> tree_list T = L @ R \<and> tree_list T' = L @ k # R
           \<and> (\<forall>x\<in>set L. x < k) \<and> (\<forall>x\<in>set R. k \<le> x)"
proof (cases "root T")
  case None
  let ?T' = "T\<lparr>root := Some (BTreeNode [k] [])\<rparr>"
  have "insert_tree (Some k) T = (None, ?T')" using None by (simp add: insert_tree_def)
  moreover have "tree_inv ?T'"
    by (auto simp: tree_inv_def need_def intro: exI [of _ 0])
  moreover have "tree_list T = [] @ []" "tree_list ?T' = [] @ k # []"
    using None by (simp_all add: tree_list_def)
  ultimately show ?thesis by (metis empty_iff empty_set select_convs(1) surjective update_convs(2))
next
  case (Some r)
  from inv Some obtain h where h: "node_inv (min_keys (order T)) (need (min_keys (order T)) True h) h r"
    by (auto simp: tree_inv_def)
  have s: "sorted (inorder r)" using srt Some by (simp add: tree_list_def)
  from insert_root_inv [OF ord refl h s, of k] obtain leaf i path r' H L R where
    a: "insert_descend k r [] = Inr (leaf, i, path)"
       "fix_insert (order T) (insert_key i k leaf) path = (None, r')"
       "node_inv (min_keys (order T)) (need (min_keys (order T)) True H) H r'"
       "inorder r = L @ R" "inorder r' = L @ k # R"
       "\<forall>x\<in>set L. x < k" "\<forall>x\<in>set R. k \<le> x" by blast
  let ?T' = "T\<lparr>root := Some r'\<rparr>"
  have "insert_tree (Some k) T = (None, ?T')" using Some a(1,2) by (simp add: insert_tree_def)
  moreover have "tree_inv ?T'" using a(3) by (auto simp: tree_inv_def)
  moreover have "order ?T' = order T" by simp
  moreover have "tree_list T = L @ R" "tree_list ?T' = L @ k # R"
    using Some a(4,5) by (simp_all add: tree_list_def)
  ultimately show ?thesis using a(6,7) by blast
qed

section \<open>Removal keeps the invariant\<close>

text \<open>
  One round of the repair walk hands a key over from a populous sibling, or merges the
  node with a sibling and leaves the parent with one key less; the keys in order are
  those of the tree without the key removed.
\<close>

lemma redistribute_inv:
  assumes pc: "pchildren = ls @ l # r # rs" and pk: "pkeys = lk @ s # rk"
    and len: "length lk = length ls" "length rk = length rs"
    and sib: "\<forall>c\<in>set ls \<union> set rs. node_inv t t h c"
    and l: "node_inv t ml h l" and r: "node_inv t mr h r"
    and tot: "2 * t \<le> length (keys l) + length (keys r)"
    and mp: "mp \<le> length pkeys"
  shows "\<exists>p'. redistribute pkeys pchildren (length ls) l r = Stop None p'
           \<and> node_inv t mp (Suc h) p'
           \<and> inorder p' = inorder (BTreeNode pkeys pchildren)"
proof -
  let ?mk = "keys l @ [s] @ keys r"
  let ?mc = "children l @ children r"
  let ?mid = "length ?mk div 2"
  let ?l' = "BTreeNode (take ?mid ?mk) (take (?mid + 1) ?mc)"
  let ?r' = "BTreeNode (drop (?mid + 1) ?mk) (drop (?mid + 1) ?mc)"
  let ?p' = "BTreeNode (lk @ ?mk ! ?mid # rk) (ls @ ?l' # ?r' # rs)"
  have mid: "?mid < length ?mk" "t \<le> ?mid" "t + ?mid < length ?mk" using tot by auto
  have j: "node_inv t 0 h (BTreeNode ?mk ?mc)"
    using join_inv [OF l r, of 0 s] by simp
  have shape: "?mc = [] \<or> length ?mc = Suc (length ?mk)"
    using j by (cases h) auto
  have l': "node_inv t t h ?l'" and r': "node_inv t t h ?r'"
    using cut_inv [OF j mid(1) mid(2) mid(3)] by simp_all
  have cut: "inorder ?l' @ ?mk ! ?mid # inorder ?r' = inorder l @ s # inorder r"
    using cut_inorder [OF shape mid(1)] join_inorder [OF l r, of s] by (simp del: inorder.simps)
  have red: "redistribute pkeys pchildren (length ls) l r = Stop None ?p'"
    using pc pk len by (simp add: redistribute_def Let_def list_update_append nth_append)
  have inv: "node_inv t mp (Suc h) ?p'"
    using sib l' r' len mp pk by auto
  have "inorder ?p' = interL lk (map inorder ls) @ (inorder ?l' @ ?mk ! ?mid # inorder ?r')
                        @ interR rk (map inorder rs)"
    using inorder_node [OF len(1), of "?mk ! ?mid # rk" ?l' "?r' # rs"]
    by (simp del: inorder.simps)
  moreover have "inorder (BTreeNode pkeys pchildren)
      = interL lk (map inorder ls) @ (inorder l @ s # inorder r) @ interR rk (map inorder rs)"
    using inorder_node [OF len(1), of "s # rk" l "r # rs"] pc pk
    by (simp del: inorder.simps)
  ultimately have "inorder ?p' = inorder (BTreeNode pkeys pchildren)"
    using cut by simp
  with red inv show ?thesis by blast
qed

lemma merge_children_inv:
  assumes pc: "pchildren = ls @ l # r # rs" and pk: "pkeys = lk @ s # rk"
    and len: "length lk = length ls" "length rk = length rs"
    and sib: "\<forall>c\<in>set ls \<union> set rs. node_inv t t h c"
    and l: "node_inv t ml h l" and r: "node_inv t mr h r"
    and tot: "t \<le> Suc (length (keys l) + length (keys r))"
    and mp: "mp \<le> length pkeys"
  shows "\<exists>p'. merge_children lb pkeys pchildren (length ls) = Continue lb p'
           \<and> node_inv t (mp - 1) (Suc h) p'
           \<and> inorder p' = inorder (BTreeNode pkeys pchildren)"
proof -
  let ?m = "BTreeNode (keys l @ [s] @ keys r) (children l @ children r)"
  let ?p' = "BTreeNode (lk @ rk) (ls @ ?m # rs)"
  have m: "node_inv t t h ?m" using join_inv [OF l r tot, of s] by simp
  have mio: "inorder ?m = inorder l @ s # inorder r"
    using join_inorder [OF l r, of s] by simp
  have mg: "merge_children lb pkeys pchildren (length ls) = Continue lb ?p'"
    using pc pk len
    by (simp add: merge_children_def Let_def del_at_def list_update_append nth_append)
  have inv: "node_inv t (mp - 1) (Suc h) ?p'"
    using sib m len mp pk by auto
  have "inorder ?p' = interL lk (map inorder ls) @ inorder ?m @ interR rk (map inorder rs)"
    using inorder_node [OF len(1), of rk ?m rs] by (simp del: inorder.simps)
  moreover have "inorder (BTreeNode pkeys pchildren)
      = interL lk (map inorder ls) @ (inorder l @ s # inorder r) @ interR rk (map inorder rs)"
    using inorder_node [OF len(1), of "s # rk" l "r # rs"] pc pk
    by (simp del: inorder.simps)
  ultimately have "inorder ?p' = inorder (BTreeNode pkeys pchildren)"
    using mio by (simp del: inorder.simps)
  with mg inv show ?thesis by blast
qed

lemma decomp_left:
  assumes "i < length cs" and "0 < i" and "length cs = Suc (length ks)"
  obtains ls l rs lk s rk where "cs[i := cur] = ls @ l # cur # rs" "ks = lk @ s # rk"
    "i = Suc (length ls)" "length lk = length ls" "length rk = length rs"
    "l \<in> set (take i cs)" "set ls \<union> set rs \<subseteq> set (take i cs) \<union> set (drop (Suc i) cs)"
proof -
  obtain j where j: "i = Suc j" using assms(2) by (cases i) auto
  have a: "cs[i := cur] = take j cs @ cs ! j # cur # drop (Suc i) cs"
    using assms(1) j by (simp add: upd_conv_take_nth_drop take_Suc_conv_app_nth)
  have b: "ks = take j ks @ ks ! j # drop i ks"
    using assms j by (simp add: id_take_nth_drop)
  have c: "cs ! j \<in> set (take i cs)"
    using assms(1) j by (simp add: take_Suc_conv_app_nth)
  have d: "set (take j cs) \<subseteq> set (take i cs)"
    using j by (metis le_add2 plus_1_eq_Suc set_take_subset_set_take)
  show ?thesis
    using that [OF a b] assms j c d by auto
qed

lemma decomp_right:
  assumes "Suc i < length cs" and "length cs = Suc (length ks)"
  obtains ls r rs lk s rk where "cs[i := cur] = ls @ cur # r # rs" "ks = lk @ s # rk"
    "i = length ls" "length lk = length ls" "length rk = length rs"
    "r \<in> set (drop (Suc i) cs)" "set ls \<union> set rs \<subseteq> set (take i cs) \<union> set (drop (Suc i) cs)"
proof -
  have a: "cs[i := cur] = take i cs @ cur # cs ! Suc i # drop (Suc (Suc i)) cs"
    using assms(1) by (simp add: upd_conv_take_nth_drop Cons_nth_drop_Suc)
  have b: "ks = take i ks @ ks ! i # drop (Suc i) ks"
    using assms by (simp add: id_take_nth_drop)
  have c: "cs ! Suc i \<in> set (drop (Suc i) cs)"
    using assms(1) by (metis Cons_nth_drop_Suc list.set_intros(1))
  have d: "set (drop (Suc (Suc i)) cs) \<subseteq> set (drop (Suc i) cs)"
    by (metis le_add2 plus_1_eq_Suc set_drop_subset_set_drop)
  show ?thesis
    using that [OF a b] assms c d by auto
qed

lemma fix_remove_step_inv:
  assumes ord: "3 \<le> ord" and t: "t = min_keys ord"
    and i: "i < length (children p)" and len: "length (children p) = Suc (length (keys p))"
    and sib: "\<forall>c\<in>set (take i (children p)) \<union> set (drop (Suc i) (children p)). node_inv t t h c"
    and mp: "mp \<le> length (keys p)" and mp1: "1 \<le> mp"
    and cur: "node_inv t (t - 1) h cur"
  shows "(\<exists>p'. fix_remove_step ord lb cur p i = Stop None p' \<and> node_inv t mp (Suc h) p'
            \<and> inorder p' = inorder (BTreeNode (keys p) ((children p)[i := cur])))
       \<or> (\<exists>lb' p'. fix_remove_step ord lb cur p i = Continue lb' p'
            \<and> node_inv t (mp - 1) (Suc h) p'
            \<and> inorder p' = inorder (BTreeNode (keys p) ((children p)[i := cur])))"
proof -
  let ?ks = "keys p"
  let ?cs = "(children p)[i := cur]"
  have o1: "1 \<le> ord" using ord by simp
  have t1: "1 \<le> t" using min_keys_bounds [OF ord] t by simp
  have ilen: "i < length ?cs" using i by simp
  show ?thesis
  proof (cases "is_node_underflowing ord False cur")
    case False
    then have "t \<le> length (keys cur)" by (simp add: underflowing_iff [OF o1] t)
    then have c: "node_inv t t h cur" using cur node_inv_raise by blast
    have "set ?cs \<subseteq> insert cur (set (take i (children p)) \<union> set (drop (Suc i) (children p)))"
      using i by (auto simp: upd_conv_take_nth_drop)
    then have "node_inv t mp (Suc h) (BTreeNode ?ks ?cs)"
      using len mp sib c by auto
    moreover have "fix_remove_step ord lb cur p i = Stop None (BTreeNode ?ks ?cs)"
      using False by (simp add: fix_remove_step_def Let_def)
    ultimately show ?thesis by blast
  next
    case under: True
    then have kc: "length (keys cur) < t" by (simp add: underflowing_iff [OF o1] t)
    have kc': "t - 1 \<le> length (keys cur)" using cur by (cases h) auto
    show ?thesis
    proof (cases "i \<noteq> 0 \<and> is_node_populous ord False (?cs ! (i - 1))")
      case A: True
      then have i0: "0 < i" by simp
      from decomp_left [OF i i0 len, of cur] obtain ls l rs lk s rk where
        d: "?cs = ls @ l # cur # rs" "?ks = lk @ s # rk" "i = Suc (length ls)"
           "length lk = length ls" "length rk = length rs" "l \<in> set (take i (children p))"
           "set ls \<union> set rs \<subseteq> set (take i (children p)) \<union> set (drop (Suc i) (children p))"
        by metis
      have li: "?cs ! (i - 1) = l" using d(1,3) by (simp add: nth_append)
      have l: "node_inv t t h l" using sib d(6) by blast
      have sib': "\<forall>c\<in>set ls \<union> set rs. node_inv t t h c" using sib d(7) by blast
      have "t < length (keys l)" using A li by (simp add: populous_iff [OF o1] t)
      then have tot: "2 * t \<le> length (keys l) + length (keys cur)" using kc' by simp
      from redistribute_inv [OF d(1) d(2) d(4) d(5) sib' l cur tot mp] obtain p' where
        "redistribute ?ks ?cs (length ls) l cur = Stop None p'" "node_inv t mp (Suc h) p'"
        "inorder p' = inorder (BTreeNode ?ks ?cs)" by blast
      moreover have "fix_remove_step ord lb cur p i = redistribute ?ks ?cs (i - 1) (?cs ! (i - 1)) cur"
        using under A ilen by (simp add: fix_remove_step_def Let_def)
      moreover have "i - 1 = length ls" using d(3) by simp
      ultimately show ?thesis using li by auto
    next
      case nA: False
      show ?thesis
      proof (cases "i \<noteq> length ?cs - 1 \<and> is_node_populous ord False (?cs ! (i + 1))")
        case B: True
        then have si: "Suc i < length (children p)" using i by auto
        from decomp_right [OF si len, of cur] obtain ls r rs lk s rk where
          d: "?cs = ls @ cur # r # rs" "?ks = lk @ s # rk" "i = length ls"
             "length lk = length ls" "length rk = length rs" "r \<in> set (drop (Suc i) (children p))"
             "set ls \<union> set rs \<subseteq> set (take i (children p)) \<union> set (drop (Suc i) (children p))"
          by metis
        have ri: "?cs ! (i + 1) = r" using d(1,3) by (simp add: nth_append)
        have r: "node_inv t t h r" using sib d(6) by blast
        have sib': "\<forall>c\<in>set ls \<union> set rs. node_inv t t h c" using sib d(7) by blast
        have "t < length (keys r)" using B ri by (simp add: populous_iff [OF o1] t)
        then have tot: "2 * t \<le> length (keys cur) + length (keys r)" using kc' by simp
        from redistribute_inv [OF d(1) d(2) d(4) d(5) sib' cur r tot mp] obtain p' where
          "redistribute ?ks ?cs (length ls) cur r = Stop None p'" "node_inv t mp (Suc h) p'"
          "inorder p' = inorder (BTreeNode ?ks ?cs)" by blast
        moreover have "fix_remove_step ord lb cur p i = redistribute ?ks ?cs i cur (?cs ! (i + 1))"
          using under nA B ilen by (auto simp add: fix_remove_step_def Let_def)
        ultimately show ?thesis using ri d(3) by auto
      next
        case nB: False
        show ?thesis
        proof (cases "i = length ?cs - 1")
          case C: True
          have i0: "0 < i" using C len mp mp1 by auto
          from decomp_left [OF i i0 len, of cur] obtain ls l rs lk s rk where
            d: "?cs = ls @ l # cur # rs" "?ks = lk @ s # rk" "i = Suc (length ls)"
               "length lk = length ls" "length rk = length rs" "l \<in> set (take i (children p))"
               "set ls \<union> set rs \<subseteq> set (take i (children p)) \<union> set (drop (Suc i) (children p))"
            by metis
          have l: "node_inv t t h l" using sib d(6) by blast
          have sib': "\<forall>c\<in>set ls \<union> set rs. node_inv t t h c" using sib d(7) by blast
          have "t \<le> length (keys l)" using l by (cases h) auto
          then have tot: "t \<le> Suc (length (keys l) + length (keys cur))" by simp
          from merge_children_inv [OF d(1) d(2) d(4) d(5) sib' l cur tot mp, of True] obtain p' where
            "merge_children True ?ks ?cs (length ls) = Continue True p'"
            "node_inv t (mp - 1) (Suc h) p'" "inorder p' = inorder (BTreeNode ?ks ?cs)" by blast
          moreover have "fix_remove_step ord lb cur p i = merge_children True ?ks ?cs (i - 1)"
            using under nA nB C ilen i0 by (auto simp add: fix_remove_step_def Let_def)
          moreover have "i - 1 = length ls" using d(3) by simp
          ultimately show ?thesis by auto
        next
          case D: False
          then have si: "Suc i < length (children p)" using i by auto
          from decomp_right [OF si len, of cur] obtain ls r rs lk s rk where
            d: "?cs = ls @ cur # r # rs" "?ks = lk @ s # rk" "i = length ls"
               "length lk = length ls" "length rk = length rs" "r \<in> set (drop (Suc i) (children p))"
               "set ls \<union> set rs \<subseteq> set (take i (children p)) \<union> set (drop (Suc i) (children p))"
            by metis
          have r: "node_inv t t h r" using sib d(6) by blast
          have sib': "\<forall>c\<in>set ls \<union> set rs. node_inv t t h c" using sib d(7) by blast
          have "t \<le> length (keys r)" using r by (cases h) auto
          then have tot: "t \<le> Suc (length (keys cur) + length (keys r))" by simp
          from merge_children_inv [OF d(1) d(2) d(4) d(5) sib' cur r tot mp, of "lb \<or> i \<noteq> 0"]
          obtain p' where
            "merge_children (lb \<or> i \<noteq> 0) ?ks ?cs (length ls) = Continue (lb \<or> i \<noteq> 0) p'"
            "node_inv t (mp - 1) (Suc h) p'" "inorder p' = inorder (BTreeNode ?ks ?cs)" by blast
          moreover have "fix_remove_step ord lb cur p i
                           = merge_children (lb \<or> i \<noteq> 0) ?ks ?cs i"
            using under nA nB D ilen by (auto simp add: fix_remove_step_def Let_def)
          ultimately show ?thesis using d(3) by auto
        qed
      qed
    qed
  qed
qed

lemma fix_remove_inv:
  assumes ord: "3 \<le> ord" and t: "t = min_keys ord"
  shows "path_inv t h path \<Longrightarrow> node_inv t (if path = [] then 0 else t - 1) h cur \<Longrightarrow>
         \<exists>r H. fix_remove ord lb cur path = (None, r) \<and> node_inv t (need t True H) H r
               \<and> inorder r = path_left path @ inorder cur @ path_right path"
proof (induction path arbitrary: cur h lb)
  case Nil
  have t1: "1 \<le> t" using min_keys_bounds [OF ord] t by simp
  from Nil.prems(2) have c: "node_inv t 0 h cur" by simp
  show ?case
  proof (cases "length (children cur) = 1")
    case True
    then obtain h' where h: "h = Suc h'" using c by (cases h) auto
    have len: "length (children cur) = Suc (length (keys cur))" using c h by simp
    have i0: "0 < length (children cur)" using True by simp
    have "node_inv t t h' (children cur ! 0)" using c h True by (simp add: nth_mem)
    then have inv: "node_inv t (need t True h') h' (children cur ! 0)"
      using node_inv_mono need_le [OF t1] by blast
    have "keys cur = []" using len True by simp
    then have io: "inorder (children cur ! 0) = inorder cur"
      using inorder_view [OF i0 len] by simp
    have "fix_remove ord lb cur [] = (None, children cur ! 0)" using True by simp
    with inv io show ?thesis by auto
  next
    case False
    have "node_inv t (need t True h) h cur"
    proof (cases h)
      case 0
      then show ?thesis using c by (simp add: need_def)
    next
      case (Suc h')
      then have "1 \<le> length (keys cur)" using c False by (cases "keys cur") auto
      then show ?thesis using c Suc node_inv_raise [of t 0 h cur 1] by (simp add: need_def)
    qed
    moreover have "fix_remove ord lb cur [] = (None, cur)" using False by simp
    ultimately show ?thesis by auto
  qed
next
  case (Cons f path)
  have t1: "1 \<le> t" using min_keys_bounds [OF ord] t by simp
  obtain p i where f: "f = (p, i)" by (cases f)
  from Cons.prems f have i: "i < length (children p)"
    and len: "length (children p) = Suc (length (keys p))"
    and sib: "\<forall>c\<in>set (take i (children p)) \<union> set (drop (Suc i) (children p)). node_inv t t h c"
    and nd: "need t (path = []) (Suc h) \<le> length (keys p)"
    and rest: "path_inv t (Suc h) path" by auto
  have c: "node_inv t (t - 1) h cur" using Cons.prems(2) by simp
  have io: "inorder (BTreeNode (keys p) ((children p)[i := cur]))
              = interL (take i (keys p)) (map inorder (take i (children p))) @ inorder cur
                @ interR (drop i (keys p)) (map inorder (drop (Suc i) (children p)))"
    by (rule inorder_update [OF i len])
  from fix_remove_step_inv [OF ord t i len sib nd need_pos [OF t1] c, of lb]
  show ?case
  proof (elim disjE exE conjE)
    fix p'
    assume st: "fix_remove_step ord lb cur p i = Stop None p'"
      and inv: "node_inv t (need t (path = []) (Suc h)) (Suc h) p'"
      and eq: "inorder p' = inorder (BTreeNode (keys p) ((children p)[i := cur]))"
    have "fix_remove ord lb cur (f # path) = (None, plug p' path)" using st f by simp
    moreover from plug_inv [OF rest inv] obtain H where "node_inv t (need t True H) H (plug p' path)"
      by blast
    moreover have "inorder (plug p' path) = path_left (f # path) @ inorder cur @ path_right (f # path)"
      using plug_inorder [OF rest, of p'] eq io f by simp
    ultimately show ?thesis by auto
  next
    fix lb' p'
    assume st: "fix_remove_step ord lb cur p i = Continue lb' p'"
      and inv: "node_inv t (need t (path = []) (Suc h) - 1) (Suc h) p'"
      and eq: "inorder p' = inorder (BTreeNode (keys p) ((children p)[i := cur]))"
    have inv': "node_inv t (if path = [] then 0 else t - 1) (Suc h) p'"
      using inv by (simp add: need_def split: if_splits)
    from Cons.IH [OF rest inv', of lb'] obtain r H where
      r: "fix_remove ord lb' p' path = (None, r)" "node_inv t (need t True H) H r"
         "inorder r = path_left path @ inorder p' @ path_right path" by blast
    have "fix_remove ord lb cur (f # path) = (None, r)" using st f r(1) by simp
    moreover have "inorder r = path_left (f # path) @ inorder cur @ path_right (f # path)"
      using r(3) eq io f by simp
    ultimately show ?thesis using r(2) by auto
  qed
qed

lemma descend_leftmost_append:
  "descend_leftmost n (p1 @ p2)
     = (fst (descend_leftmost n p1), snd (descend_leftmost n p1) @ p2)"
proof (induction n p1 rule: descend_leftmost.induct)
  case (1 leaf path)
  show ?case
  proof (cases "is_internal leaf")
    case True
    have "descend_leftmost leaf (path @ p2)
            = descend_leftmost (children leaf ! 0) (((leaf, 0) # path) @ p2)"
      using True by (subst descend_leftmost.simps) simp
    also have "\<dots> = (fst (descend_leftmost (children leaf ! 0) ((leaf, 0) # path)),
                     snd (descend_leftmost (children leaf ! 0) ((leaf, 0) # path)) @ p2)"
      by (rule "1.IH" [OF True])
    also have "descend_leftmost (children leaf ! 0) ((leaf, 0) # path)
                 = descend_leftmost leaf path"
      using True by (subst (2) descend_leftmost.simps) simp
    finally show ?thesis .
  next
    case False
    then show ?thesis by (simp add: descend_leftmost.simps)
  qed
qed

lemma descend_leftmost_inv:
  "path_inv t h path \<Longrightarrow> path \<noteq> [] \<Longrightarrow> node_inv t t h n \<Longrightarrow>
   \<exists>leaf path'. descend_leftmost n path = (leaf, path') \<and> path_inv t 0 path' \<and> path' \<noteq> []
      \<and> node_inv t t 0 leaf \<and> path_left path' = path_left path
      \<and> inorder leaf @ path_right path' = inorder n @ path_right path"
proof (induction h arbitrary: n path)
  case 0
  then have "\<not> is_internal n" by (simp add: is_internal_def is_leaf_def)
  then have "descend_leftmost n path = (n, path)"
    by (subst descend_leftmost.simps) simp
  then show ?case using 0 by auto
next
  case (Suc h)
  from Suc.prems(3) have len: "length (children n) = Suc (length (keys n))"
    and nd: "t \<le> length (keys n)"
    and ch: "\<forall>c\<in>set (children n). node_inv t t h c" by auto
  have i0: "0 < length (children n)" using len by simp
  have int: "is_internal n" using len by (simp add: is_internal_def is_leaf_def)
  have step: "descend_leftmost n path = descend_leftmost (children n ! 0) ((n, 0) # path)"
    using int by (subst descend_leftmost.simps) simp
  have pi: "path_inv t h ((n, 0) # path)"
    using i0 len nd ch Suc.prems(1,2) by (auto simp: need_def dest: in_set_dropD)
  have c0: "node_inv t t h (children n ! 0)" using ch i0 by simp
  from Suc.IH [OF pi _ c0] obtain leaf path' where
    r: "descend_leftmost (children n ! 0) ((n, 0) # path) = (leaf, path')"
       "path_inv t 0 path'" "path' \<noteq> []" "node_inv t t 0 leaf"
       "path_left path' = path_left ((n, 0) # path)"
       "inorder leaf @ path_right path' = inorder (children n ! 0) @ path_right ((n, 0) # path)"
    by blast
  have "inorder (children n ! 0) @ path_right ((n, 0) # path) = inorder n @ path_right path"
    using inorder_view [OF i0 len] by simp
  with r step show ?case by auto
qed

lemma remove_descend_inv:
  fixes k :: "'a::linorder"
  shows "path_inv t h path \<Longrightarrow> node_inv t (need t (path = []) h) h n \<Longrightarrow>
   remove_descend k n path = Inl KeyNotFound \<or>
   (\<exists>target i path' h'. remove_descend k n path = Inr (target, i, path')
      \<and> path_inv t h' path' \<and> node_inv t (need t (path' = []) h') h' target
      \<and> i < length (keys target) \<and> keys target ! i = k
      \<and> path_left path' @ inorder target @ path_right path'
          = path_left path @ inorder n @ path_right path)"
proof (induction h arbitrary: n path)
  case 0
  let ?i = "curr_key_idx k (keys n)"
  have leaf: "\<not> is_internal n" using 0 by (simp add: is_internal_def is_leaf_def)
  show ?case
  proof (cases "?i < length (keys n) \<and> k = keys n ! ?i")
    case True
    then have "remove_descend k n path = Inr (n, ?i, path)"
      by (subst remove_descend.simps) (simp add: Let_def)
    then show ?thesis using True 0
      by (intro disjI2 exI [of _ n] exI [of _ ?i] exI [of _ path] exI [of _ 0]) auto
  next
    case False
    then have "remove_descend k n path = Inl KeyNotFound"
      using leaf by (subst remove_descend.simps) (auto simp add: Let_def)
    then show ?thesis by simp
  qed
next
  case (Suc h)
  let ?i = "curr_key_idx k (keys n)"
  from Suc.prems(2) have len: "length (children n) = Suc (length (keys n))"
    and nd: "need t (path = []) (Suc h) \<le> length (keys n)"
    and ch: "\<forall>c\<in>set (children n). node_inv t t h c" by auto
  have il: "?i < length (children n)" using len curr_key_idx_le [of k "keys n"] by simp
  have int: "is_internal n" using len by (simp add: is_internal_def is_leaf_def)
  show ?case
  proof (cases "?i < length (keys n) \<and> k = keys n ! ?i")
    case True
    then have "remove_descend k n path = Inr (n, ?i, path)"
      by (subst remove_descend.simps) (simp add: Let_def)
    then show ?thesis using True Suc.prems
      by (intro disjI2 exI [of _ n] exI [of _ ?i] exI [of _ path] exI [of _ "Suc h"]) auto
  next
    case False
    then have step: "remove_descend k n path
                       = remove_descend k (children n ! ?i) ((n, ?i) # path)"
      using int il by (subst remove_descend.simps) (auto simp add: Let_def)
    have pi: "path_inv t h ((n, ?i) # path)"
      using il len nd ch Suc.prems(1) by (auto dest: in_set_takeD in_set_dropD)
    have ci: "node_inv t (need t (((n, ?i) # path) = []) h) h (children n ! ?i)"
      using ch il by (simp add: need_def)
    have eq: "path_left ((n, ?i) # path) @ inorder (children n ! ?i) @ path_right ((n, ?i) # path)
        = path_left path @ inorder n @ path_right path"
      using inorder_view [OF il len] by simp
    from Suc.IH [OF pi ci] show ?thesis unfolding step eq .
  qed
qed

lemma remove_descend_finds:
  fixes k :: "'a::linorder"
  shows "node_inv t m h n \<Longrightarrow> sorted (inorder n) \<Longrightarrow> k \<in> set (inorder n) \<Longrightarrow>
         remove_descend k n path \<noteq> Inl KeyNotFound"
proof (induction h arbitrary: n path m)
  case 0
  then have "children n = []" by simp
  then have "inorder n = keys n" by (rule inorder_childless)
  then have "curr_key_idx k (keys n) < length (keys n) \<and> keys n ! curr_key_idx k (keys n) = k"
    using curr_key_idx_found [of "keys n" k] 0 by simp
  then show ?case by (subst remove_descend.simps) (auto simp add: Let_def)
next
  case (Suc h)
  let ?i = "curr_key_idx k (keys n)"
  from Suc.prems(1) have len: "length (children n) = Suc (length (keys n))"
    and ch: "\<forall>c\<in>set (children n). node_inv t t h c" by auto
  have il: "?i < length (children n)" using len curr_key_idx_le [of k "keys n"] by simp
  have int: "is_internal n" using len by (simp add: is_internal_def is_leaf_def)
  show ?case
  proof (cases "?i < length (keys n) \<and> k = keys n ! ?i")
    case True
    then show ?thesis by (subst remove_descend.simps) (simp add: Let_def)
  next
    case False
    then have step: "remove_descend k n path
                       = remove_descend k (children n ! ?i) ((n, ?i) # path)"
      using int il by (subst remove_descend.simps) (auto simp add: Let_def)
    have c: "node_inv t t h (children n ! ?i)" using ch il by simp
    show ?thesis
      unfolding step
      using Suc.IH [OF c key_in_child(2) [OF len Suc.prems(2,3) False]
                       key_in_child(1) [OF len Suc.prems(2,3) False]] .
  qed
qed

lemma delete_key_leaf:
  assumes ord: "3 \<le> ord" and t: "t = min_keys ord"
    and pi: "path_inv t 0 path" and inv: "node_inv t (need t (path = []) 0) 0 target"
    and i: "i < length (keys target)"
  shows "\<exists>r' H A B. delete_key ord r0 target i path = (None, r')
           \<and> node_inv t (need t True H) H r'
           \<and> path_left path @ inorder target @ path_right path = A @ keys target ! i # B
           \<and> inorder r' = A @ B"
proof -
  let ?ks = "keys target"
  let ?cur = "BTreeNode (del_at i ?ks) (children target)"
  have lf: "children target = []" using inv by simp
  have len: "length (del_at i ?ks) = length ?ks - 1" using i by (simp add: del_at_def)
  have c: "node_inv t (if path = [] then 0 else t - 1) 0 ?cur"
    using inv lf len by (auto simp: need_def)
  from fix_remove_inv [OF ord t pi c, of False] obtain r' H where
    f: "fix_remove ord False ?cur path = (None, r')" "node_inv t (need t True H) H r'"
       "inorder r' = path_left path @ inorder ?cur @ path_right path" by blast
  have dk: "delete_key ord r0 target i path = (None, r')"
    using f(1) lf by (simp add: delete_key_def is_internal_def is_leaf_def)
  let ?A = "path_left path @ take i ?ks"
  let ?B = "drop (Suc i) ?ks @ path_right path"
  have "inorder target = take i ?ks @ ?ks ! i # drop (Suc i) ?ks"
    using inorder_childless [OF lf] i by (simp add: id_take_nth_drop [symmetric])
  then have e1: "path_left path @ inorder target @ path_right path = ?A @ ?ks ! i # ?B" by simp
  have e2: "inorder r' = ?A @ ?B" using f(3) lf by (simp add: del_at_def)
  show ?thesis using dk f(2) e1 e2 by blast
qed

lemma delete_key_internal:
  assumes ord: "3 \<le> ord" and t: "t = min_keys ord"
    and pi: "path_inv t (Suc h) path" and inv: "node_inv t (need t (path = []) (Suc h)) (Suc h) target"
    and i: "i < length (keys target)"
  shows "\<exists>r' H A B. delete_key ord r0 target i path = (None, r')
           \<and> node_inv t (need t True H) H r'
           \<and> path_left path @ inorder target @ path_right path = A @ keys target ! i # B
           \<and> inorder r' = A @ B"
proof -
  let ?ks = "keys target"
  let ?cs = "children target"
  let ?c = "?cs ! (i + 1)"
  have t1: "1 \<le> t" using min_keys_bounds [OF ord] t by simp
  from inv have len: "length ?cs = Suc (length ?ks)"
    and nd: "need t (path = []) (Suc h) \<le> length ?ks"
    and ch: "\<forall>c\<in>set ?cs. node_inv t t h c" by auto
  have i1: "i + 1 < length ?cs" using i len by simp
  have int: "is_internal target" using len by (simp add: is_internal_def is_leaf_def)
  obtain leaf below where lb: "descend_leftmost ?c [] = (leaf, below)" by (cases "descend_leftmost ?c []")
  define k0 where "k0 = hd (keys leaf)"
  define rest where "rest = tl (keys leaf)"
  let ?target' = "BTreeNode (?ks[i := k0]) ?cs"
  let ?p0 = "(?target', i + 1) # path"
  have pi0: "path_inv t h ?p0"
    using i1 len nd ch pi by (auto dest: in_set_takeD in_set_dropD)
  have c: "node_inv t t h ?c" using ch i1 by simp
  have full: "descend_leftmost ?c ?p0 = (leaf, below @ ?p0)"
    using descend_leftmost_append [of ?c "[]" ?p0] lb by simp
  from descend_leftmost_inv [OF pi0 _ c] full have
    d: "path_inv t 0 (below @ ?p0)" "node_inv t t 0 leaf"
       "path_left (below @ ?p0) = path_left ?p0"
       "inorder leaf @ path_right (below @ ?p0) = inorder ?c @ path_right ?p0"
    by auto
  have lf: "children leaf = []" and kl: "t \<le> length (keys leaf)" using d(2) by auto
  have ks: "keys leaf = k0 # rest" using kl t1 by (cases "keys leaf") (auto simp: k0_def rest_def)
  have il: "inorder leaf = k0 # rest" using inorder_childless [OF lf] ks by simp
  let ?cur = "BTreeNode rest (children leaf)"
  have cinv: "node_inv t (if below @ ?p0 = [] then 0 else t - 1) 0 ?cur"
    using lf kl ks by auto
  from fix_remove_inv [OF ord t d(1) cinv, of False] obtain r' H where
    f: "fix_remove ord False ?cur (below @ ?p0) = (None, r')" "node_inv t (need t True H) H r'"
       "inorder r' = path_left (below @ ?p0) @ inorder ?cur @ path_right (below @ ?p0)" by blast
  have dk: "delete_key ord r0 target i path = (None, r')"
    using f(1) int i1 lb ks by (simp add: delete_key_def)
  let ?X = "interL (take i ?ks) (map inorder (take i ?cs)) @ inorder (?cs ! i)"
  let ?A = "path_left path @ ?X"
  let ?B = "k0 # rest @ path_right (below @ ?p0)"
  have li: "length (take i ?ks) = length (map inorder (take i ?cs))" using i len by simp
  have tk: "take (Suc i) ?ks = take i ?ks @ [?ks ! i]" using i by (simp add: take_Suc_conv_app_nth)
  have tk': "take (Suc i) (?ks[i := k0]) = take i ?ks @ [k0]"
    using i by (simp add: take_Suc_conv_app_nth)
  have tc: "take (Suc i) ?cs = take i ?cs @ [?cs ! i]" using i len by (simp add: take_Suc_conv_app_nth)
  have pl: "path_left ?p0 = ?A @ [k0]"
    using interL_snoc [OF li, of k0 "inorder (?cs ! i)"] tk' tc by simp
  have pr: "path_right ?p0
              = interR (drop (Suc i) ?ks) (map inorder (drop (Suc (Suc i)) ?cs)) @ path_right path"
    using i by simp
  have v: "inorder target = (?X @ [?ks ! i]) @ inorder ?c
                            @ interR (drop (Suc i) ?ks) (map inorder (drop (Suc (Suc i)) ?cs))"
    using inorder_view [OF i1 len] interL_snoc [OF li, of "?ks ! i" "inorder (?cs ! i)"] tk tc
    by simp
  have "inorder ?c @ path_right ?p0 = ?B" using d(4) il by simp
  then have e1: "path_left path @ inorder target @ path_right path = ?A @ ?ks ! i # ?B"
    using v pr by simp
  have e2: "inorder r' = ?A @ ?B" using f(3) d(3) pl lf by simp
  show ?thesis using dk f(2) e1 e2 by blast
qed

lemma remove_tree_inv:
  fixes k :: "'a::linorder"
  assumes ord: "3 \<le> order T" and inv: "tree_inv T"
  shows "(remove_tree (Some k) T = (Some KeyNotFound, T)
            \<and> (sorted (tree_list T) \<longrightarrow> k \<notin> set (tree_list T)))
       \<or> (\<exists>T' A B. remove_tree (Some k) T = (None, T') \<and> order T' = order T \<and> tree_inv T'
             \<and> tree_list T = A @ k # B \<and> tree_list T' = A @ B)"
proof (cases "root T")
  case None
  then show ?thesis by (simp add: remove_tree_def tree_list_def)
next
  case (Some r)
  let ?t = "min_keys (order T)"
  from inv Some obtain h where h: "node_inv ?t (need ?t True h) h r"
    by (auto simp: tree_inv_def)
  have p0: "path_inv ?t h []" by simp
  have n0: "node_inv ?t (need ?t ([] = ([] :: 'a path)) h) h r" using h by simp
  from remove_descend_inv [OF p0 n0, of k]
  show ?thesis
  proof (elim disjE exE conjE)
    assume nf: "remove_descend k r [] = Inl KeyNotFound"
    then have "remove_tree (Some k) T = (Some KeyNotFound, T)"
      using Some by (simp add: remove_tree_def)
    moreover have "sorted (tree_list T) \<longrightarrow> k \<notin> set (tree_list T)"
      using remove_descend_finds [OF h, of k "[]"] nf Some by (auto simp: tree_list_def)
    ultimately show ?thesis by simp
  next
    fix target i path h'
    assume d: "remove_descend k r [] = Inr (target, i, path)" "path_inv ?t h' path"
      "node_inv ?t (need ?t (path = []) h') h' target" "i < length (keys target)"
      "keys target ! i = k"
      "path_left path @ inorder target @ path_right path = path_left [] @ inorder r @ path_right []"
    have "\<exists>r' H A B. delete_key (order T) r target i path = (None, r')
           \<and> node_inv ?t (need ?t True H) H r'
           \<and> path_left path @ inorder target @ path_right path = A @ keys target ! i # B
           \<and> inorder r' = A @ B"
    proof (cases h')
      case 0
      then show ?thesis using delete_key_leaf [OF ord refl _ _ d(4)] d(2,3) by blast
    next
      case (Suc h'')
      then show ?thesis using delete_key_internal [OF ord refl _ _ d(4)] d(2,3) by blast
    qed
    then obtain r' H A B where
      e: "delete_key (order T) r target i path = (None, r')" "node_inv ?t (need ?t True H) H r'"
         "path_left path @ inorder target @ path_right path = A @ keys target ! i # B"
         "inorder r' = A @ B" by blast
    let ?T' = "T\<lparr>root := Some r'\<rparr>"
    have "remove_tree (Some k) T = (None, ?T')" using Some d(1) e(1) by (simp add: remove_tree_def)
    moreover have "tree_inv ?T'" using e(2) by (auto simp: tree_inv_def)
    moreover have "order ?T' = order T" by simp
    moreover have "tree_list T = A @ k # B" "tree_list ?T' = A @ B"
      using Some e(3,4) d(5,6) by (simp_all add: tree_list_def)
    ultimately show ?thesis by blast
  qed
qed

section \<open>Search finds the keys of the tree\<close>

lemma search_node_finds:
  fixes k :: "'a::linorder"
  shows "node_inv t m h n \<Longrightarrow> sorted (inorder n) \<Longrightarrow> k \<in> set (inorder n) \<Longrightarrow>
         \<exists>node. search_node k n = Inr (Some node) \<and> k \<in> set (keys node) \<and> node \<in> subtrees n"
proof (induction h arbitrary: n m)
  case 0
  then have "children n = []" by simp
  then have "inorder n = keys n" by (rule inorder_childless)
  then have f: "curr_key_idx k (keys n) < length (keys n) \<and> keys n ! curr_key_idx k (keys n) = k"
    using curr_key_idx_found [of "keys n" k] 0 by simp
  then have "search_node k n = Inr (Some n)"
    by (subst search_node.simps) (auto simp add: Let_def)
  moreover have "k \<in> set (keys n)" using f by (metis nth_mem)
  ultimately show ?case using subtrees_self by blast
next
  case (Suc h)
  let ?i = "curr_key_idx k (keys n)"
  from Suc.prems(1) have len: "length (children n) = Suc (length (keys n))"
    and ch: "\<forall>c\<in>set (children n). node_inv t t h c" by auto
  have il: "?i < length (children n)" using len curr_key_idx_le [of k "keys n"] by simp
  show ?case
  proof (cases "?i < length (keys n) \<and> k = keys n ! ?i")
    case True
    then have "search_node k n = Inr (Some n)"
      by (subst search_node.simps) (auto simp add: Let_def)
    moreover have "k \<in> set (keys n)" using True by (metis nth_mem)
    ultimately show ?thesis using subtrees_self by blast
  next
    case False
    then have step: "search_node k n = search_node k (children n ! ?i)"
      using il curr_key_idx_le [of k "keys n"]
      by (subst search_node.simps) (auto simp add: Let_def)
    have c: "node_inv t t h (children n ! ?i)" using ch il by simp
    from Suc.IH [OF c key_in_child(2) [OF len Suc.prems(2,3) False]
                     key_in_child(1) [OF len Suc.prems(2,3) False]]
    obtain node where "search_node k (children n ! ?i) = Inr (Some node)" "k \<in> set (keys node)"
      "node \<in> subtrees (children n ! ?i)" by blast
    then show ?thesis using step subtrees_child [of "children n ! ?i" n node] il by auto
  qed
qed

section \<open>Sequences of operations keep the invariant\<close>

lemma traverse_inorder_eq: "tree_inv T \<Longrightarrow> traverse_inorder T = Inr (tree_list T)"
  by (auto simp: tree_inv_def traverse_inorder_def tree_list_def node_traverse_inorder_eq
      split: option.splits)

lemma tree_keys_list: "tree_inv T \<Longrightarrow> tree_keys T = set (tree_list T)"
  by (auto simp: tree_inv_def tree_keys_def tree_list_def keys_of_inorder split: option.splits)

lemma node_inv_occupancy:
  "1 \<le> M \<Longrightarrow> node_inv (min_keys M) (min_keys M) h n \<Longrightarrow> min_occupancy M n"
proof (induction h arbitrary: n)
  case 0
  then show ?case by (cases n) (auto simp: min_keys_def)
next
  case (Suc h)
  then show ?case by (cases n) (auto simp: min_keys_def)
qed

lemma tree_inv_occupancy: "1 \<le> order T \<Longrightarrow> tree_inv T \<Longrightarrow> occupancy_bound T"
proof -
  assume o: "1 \<le> order T" and i: "tree_inv T"
  show ?thesis
  proof (cases "root T")
    case None
    then show ?thesis by (simp add: occupancy_bound_def)
  next
    case (Some r)
    then obtain h where h: "node_inv (min_keys (order T)) (need (min_keys (order T)) True h) h r"
      using i by (auto simp: tree_inv_def)
    show ?thesis
    proof (cases h)
      case 0
      then show ?thesis using h Some by (simp add: occupancy_bound_def)
    next
      case (Suc h')
      then show ?thesis using h Some node_inv_occupancy [OF o]
        by (auto simp: occupancy_bound_def)
    qed
  qed
qed

lemma apply_op_sound:
  fixes x :: "'a::linorder op"
  assumes ord: "3 \<le> order T" and inv: "tree_inv T" and srt: "sorted (tree_list T)"
  shows "tree_inv (apply_op x T) \<and> sorted (tree_list (apply_op x T))
         \<and> order (apply_op x T) = order T"
proof (cases x)
  case (Insert k)
  from insert_tree_inv [OF ord inv srt, of k] obtain T' L R where
    a: "insert_tree (Some k) T = (None, T')" "order T' = order T" "tree_inv T'"
       "tree_list T = L @ R" "tree_list T' = L @ k # R"
       "\<forall>x\<in>set L. x < k" "\<forall>x\<in>set R. k \<le> x" by blast
  have "sorted (L @ k # R)" using srt a(4,6,7) by (auto simp: sorted_append)
  then show ?thesis using Insert a(1,2,3,5) by simp
next
  case (Remove k)
  from remove_tree_inv [OF ord inv, of k]
  show ?thesis
  proof (elim disjE exE conjE)
    assume "remove_tree (Some k) T = (Some KeyNotFound, T)"
    then show ?thesis using Remove inv srt by simp
  next
    fix T' A B
    assume a: "remove_tree (Some k) T = (None, T')" "order T' = order T" "tree_inv T'"
       "tree_list T = A @ k # B" "tree_list T' = A @ B"
    have "sorted (A @ B)" using srt a(4) by (auto simp: sorted_append)
    then show ?thesis using Remove a(1,2,3,5) by simp
  qed
qed

lemma run_sound:
  fixes ops :: "'a::linorder op list"
  shows "3 \<le> order T \<Longrightarrow> tree_inv T \<Longrightarrow> sorted (tree_list T) \<Longrightarrow>
         tree_inv (run ops T) \<and> sorted (tree_list (run ops T)) \<and> order (run ops T) = order T"
proof (induction ops arbitrary: T)
  case Nil
  then show ?case by simp
next
  case (Cons x ops)
  note a = apply_op_sound [OF Cons.prems, of x]
  have o: "3 \<le> order (apply_op x T)" using a Cons.prems(1) by simp
  from Cons.IH [OF o] a show ?case by simp
qed

lemma reachable_sound:
  fixes ops :: "'a::linorder op list"
  assumes "3 \<le> M"
  shows "tree_inv (run ops (empty_tree M))" and "sorted (tree_list (run ops (empty_tree M)))"
    and "order (run ops (empty_tree M)) = M"
proof -
  have o: "3 \<le> order (empty_tree M :: 'a BTree)" using assms by (simp add: empty_tree_def)
  have i: "tree_inv (empty_tree M :: 'a BTree)" by (simp add: tree_inv_def empty_tree_def)
  have s: "sorted (tree_list (empty_tree M :: 'a BTree))" by (simp add: tree_list_def empty_tree_def)
  note r = run_sound [OF o i s, of ops]
  show "tree_inv (run ops (empty_tree M))" using r by simp
  show "sorted (tree_list (run ops (empty_tree M)))" using r by simp
  show "order (run ops (empty_tree M)) = M" using r by (simp add: empty_tree_def)
qed

lemma apply_op_good:
  fixes x :: "'a::linorder op"
  assumes ord: "3 \<le> order T" and g: "good T" and s: "set (tree_list T) = set present"
    and d: "distinct_keys present [x]"
  shows "good (apply_op x T) \<and> order (apply_op x T) = order T
         \<and> set (tree_list (apply_op x T)) = set (present_after present [x])"
proof (cases x)
  case (Insert k)
  from g have inv: "tree_inv T" and srt: "sorted (tree_list T)" and dst: "distinct (tree_list T)"
    by (simp_all add: good_def)
  from insert_tree_inv [OF ord inv srt, of k] obtain T' L R where
    a: "insert_tree (Some k) T = (None, T')" "order T' = order T" "tree_inv T'"
       "tree_list T = L @ R" "tree_list T' = L @ k # R"
       "\<forall>x\<in>set L. x < k" "\<forall>x\<in>set R. k \<le> x" by blast
  have nk: "k \<notin> set (tree_list T)" using d s Insert by simp
  have "sorted (L @ k # R)" using srt a(4,6,7) by (auto simp: sorted_append)
  moreover have "distinct (L @ k # R)" using dst nk a(4) by auto
  ultimately have "good T'" using a(3,5) by (simp add: good_def)
  moreover have "set (tree_list T') = insert k (set present)" using a(4,5) s by auto
  ultimately show ?thesis using Insert a(1,2) by simp
next
  case (Remove k)
  from g have inv: "tree_inv T" and srt: "sorted (tree_list T)" and dst: "distinct (tree_list T)"
    by (simp_all add: good_def)
  from remove_tree_inv [OF ord inv, of k]
  show ?thesis
  proof (elim disjE exE conjE)
    assume a: "remove_tree (Some k) T = (Some KeyNotFound, T)"
      "sorted (tree_list T) \<longrightarrow> k \<notin> set (tree_list T)"
    then have "k \<notin> set present" using srt s by simp
    then have "removeAll k present = present" by simp
    then show ?thesis using Remove a(1) g s by simp
  next
    fix T' A B
    assume a: "remove_tree (Some k) T = (None, T')" "order T' = order T" "tree_inv T'"
       "tree_list T = A @ k # B" "tree_list T' = A @ B"
    have "sorted (A @ B)" using srt a(4) by (auto simp: sorted_append)
    moreover have dd: "distinct (A @ B) \<and> k \<notin> set (A @ B)" using dst a(4) by auto
    ultimately have "good T'" using a(3,5) by (simp add: good_def)
    moreover have "set (tree_list T') = set present - {k}" using a(4,5) s dd by auto
    ultimately show ?thesis using Remove a(1,2) by simp
  qed
qed

lemma run_good:
  fixes ops :: "'a::linorder op list"
  shows "3 \<le> order T \<Longrightarrow> good T \<Longrightarrow> set (tree_list T) = set present \<Longrightarrow>
         distinct_keys present ops \<Longrightarrow>
         good (run ops T) \<and> order (run ops T) = order T
         \<and> set (tree_list (run ops T)) = set (present_after present ops)"
proof (induction ops arbitrary: T present)
  case Nil
  then show ?case by simp
next
  case (Cons x ops)
  have d1: "distinct_keys present [x]" using Cons.prems(4) by (cases x) simp_all
  note a = apply_op_good [OF Cons.prems(1,2,3) d1]
  have d2: "distinct_keys (present_after present [x]) ops"
    using Cons.prems(4) by (cases x) simp_all
  have o: "3 \<le> order (apply_op x T)" using a Cons.prems(1) by simp
  from Cons.IH [OF o _ _ d2] a
  have "good (run ops (apply_op x T)) \<and> order (run ops (apply_op x T)) = order (apply_op x T)
        \<and> set (tree_list (run ops (apply_op x T))) = set (present_after (present_after present [x]) ops)"
    by blast
  moreover have "present_after (present_after present [x]) ops = present_after present (x # ops)"
    by (cases x) simp_all
  ultimately show ?case using a by simp
qed

lemma empty_tree_good: "good (empty_tree M)" "tree_list (empty_tree M) = []"
  "order (empty_tree M) = M"
  by (simp_all add: good_def tree_inv_def tree_list_def empty_tree_def)

lemma reachable_good:
  fixes ops :: "'a::linorder op list"
  assumes "3 \<le> M" and "distinct_keys [] ops"
  shows "good (run ops (empty_tree M))" and "order (run ops (empty_tree M)) = M"
    and "set (tree_list (run ops (empty_tree M))) = set (present_after [] ops)"
proof -
  have o: "3 \<le> order (empty_tree M :: 'a BTree)" using assms(1) by (simp add: empty_tree_good)
  have s: "set (tree_list (empty_tree M :: 'a BTree)) = set []" by (simp add: empty_tree_good)
  note r = run_good [OF o empty_tree_good(1) s assms(2)]
  show "good (run ops (empty_tree M))" using r by simp
  show "order (run ops (empty_tree M)) = M" using r by (simp add: empty_tree_good)
  show "set (tree_list (run ops (empty_tree M))) = set (present_after [] ops)" using r by simp
qed

section \<open>The code and the words of the specification\<close>

lemma split_node_spec:
  assumes "1 \<le> ord" and "ord - 1 < int (length (keys n))"
  shows "split_node ord n = Some (spec_left ord n, spec_promoted ord n, spec_right ord n)"
  using split_node_eq [OF assms]
  by (simp add: spec_left_def spec_right_def spec_promoted_def spec_mid_def min_keys_def)

lemma promote_spec:
  "i < length (children p) \<Longrightarrow> promote p i l k r = spec_parent_after_split p i l k r"
  by (simp add: promote_eq spec_parent_after_split_def)

lemma descend_leftmost_spec:
  "descend_leftmost n path = (leaf, full) \<Longrightarrow>
   leaf = leftmost_leaf n
   \<and> plug (BTreeNode (tl (keys leaf)) (children leaf)) full = plug (without_first_key n) path"
proof (induction n path rule: descend_leftmost.induct)
  case (1 n path)
  show ?case
  proof (cases "is_internal n")
    case True
    then have "descend_leftmost (children n ! 0) ((n, 0) # path) = (leaf, full)"
      using "1.prems" by (subst (asm) descend_leftmost.simps) simp
    from "1.IH" [OF True this] show ?thesis
      using True by (subst leftmost_leaf.simps, subst without_first_key.simps) simp
  next
    case False
    then have "leaf = n" "full = path"
      using "1.prems" by (subst (asm) descend_leftmost.simps, simp)+
    then show ?thesis
      using False by (subst leftmost_leaf.simps, subst without_first_key.simps) simp
  qed
qed

lemma merge_children_eq:
  assumes "j < length pkeys" and "Suc j < length pchildren"
  shows "merge_children lb pkeys pchildren j = Continue lb (merge_at pkeys pchildren j)"
proof -
  have "take (Suc j) pchildren = take j pchildren @ [pchildren ! j]"
    using assms(2) by (simp add: take_Suc_conv_app_nth)
  then have "(del_at (j + 1) pchildren)[j := x]
               = take j pchildren @ x # drop (j + 2) pchildren" for x
    using assms(2) by (simp add: del_at_def list_update_append)
  then show ?thesis
    using assms(1) by (simp add: merge_children_def merge_at_def Let_def del_at_def)
qed



section \<open>Searching for a key that is not in the tree\<close>

text \<open>
  On a tree whose nodes have the shape of the data model the descent of \<open>search\<close> for
  a key that no node holds always ends at a leaf, where it indexes the empty list of
  children.
\<close>

lemma search_node_absent:
  "well_formed n \<Longrightarrow> k \<notin> keys_of n \<Longrightarrow> search_node k n = Inl IndexError"
proof (induction k n rule: search_node.induct)
  case (1 target curr_node)
  let ?i = "curr_key_idx target (keys curr_node)"
  have le: "?i \<le> length (keys curr_node)" by (rule curr_key_idx_le)
  have nomatch: "\<not> (?i \<noteq> length (keys curr_node) \<and> target = keys curr_node ! ?i)"
    using "1.prems"(2) keys_of_keys [of curr_node] le
    by (metis le_neq_implies_less nth_mem subsetD)
  show ?case
  proof (cases "children curr_node = []")
    case True
    with nomatch show ?thesis
      by (subst search_node.simps) (simp add: Let_def)
  next
    case False
    have lt: "?i < length (children curr_node)"
      using well_formed_length [OF "1.prems"(1) False] le by simp
    then have mem: "children curr_node ! ?i \<in> set (children curr_node)"
      by simp
    have "search_node target (children curr_node ! ?i) = Inl IndexError"
      using "1.IH" [OF refl nomatch lt] well_formed_child [OF "1.prems"(1) mem]
        keys_of_child [OF mem] "1.prems"(2) by blast
    with nomatch lt show ?thesis
      by (subst search_node.simps) (simp add: Let_def)
  qed
qed

text \<open>
  C1. The claim: for a key that is not in the tree, \<open>search\<close> returns \<open>None\<close> and does
  not raise. The code: on the tree that holds the single key 1, the search for 2 scans
  the root, does not find the key and evaluates \<open>curr_node.children[1]\<close> on the empty
  list of children of the leaf, which raises IndexError.
\<close>

theorem search_absent_raises:
  "search (Some (2::int)) (snd (insert_tree (Some 1) \<lparr>order = 3, root = None\<rparr>))
     = Inl IndexError"
  by (simp add: search_def insert_tree_def search_node.simps)

section \<open>Removing a key that is not in the tree\<close>

lemma remove_descend_absent:
  "well_formed n \<Longrightarrow> k \<notin> keys_of n \<Longrightarrow> remove_descend k n path = Inl KeyNotFound"
proof (induction k n path rule: remove_descend.induct)
  case (1 key target_node path)
  let ?i = "curr_key_idx key (keys target_node)"
  have nomatch: "\<not> (?i < length (keys target_node) \<and> key = keys target_node ! ?i)"
    using "1.prems"(2) keys_of_keys [of target_node] by (metis nth_mem subsetD)
  show ?case
  proof (cases "is_internal target_node")
    case False
    with nomatch show ?thesis
      by (subst remove_descend.simps) (simp add: Let_def)
  next
    case True
    then have ne: "children target_node \<noteq> []"
      by (simp add: is_internal_def is_leaf_def)
    have lt: "?i < length (children target_node)"
      using well_formed_length [OF "1.prems"(1) ne] curr_key_idx_le [of key "keys target_node"]
      by simp
    then have mem: "children target_node ! ?i \<in> set (children target_node)"
      by simp
    have "remove_descend key (children target_node ! ?i) ((target_node, ?i) # path)
            = Inl KeyNotFound"
      using "1.IH" [OF refl nomatch True lt] well_formed_child [OF "1.prems"(1) mem]
        keys_of_child [OF mem] "1.prems"(2) by blast
    with nomatch True lt show ?thesis
      by (subst remove_descend.simps) (simp add: Let_def)
  qed
qed

text \<open>
  Every tree of order at least 3 reached from the empty tree by insertions and removals
  has that shape.
\<close>

lemma node_inv_well_formed: "node_inv t m h n \<Longrightarrow> well_formed n"
proof (induction h arbitrary: n m)
  case 0
  then show ?case by (cases n) simp
next
  case (Suc h)
  then show ?case by (cases n) auto
qed

lemma reachable_well_formed:
  fixes ops :: "'a::linorder op list"
  assumes "3 \<le> M"
  shows "tree_well_formed (run ops (empty_tree M))"
  using reachable_sound(1) [OF assms, of ops]
  by (auto simp: tree_inv_def tree_well_formed_def node_inv_well_formed split: option.splits)

text \<open>
  C4. On every tree whose nodes have the shape of the data model, removing a key that no
  node holds fails with KeyNotFound and gives back the tree it was given: the exception
  is raised at the end of the descent, before any node is written.
\<close>

theorem remove_absent_key:
  "tree_well_formed t \<Longrightarrow> k \<notin> tree_keys t \<Longrightarrow> remove_tree (Some k) t = (Some KeyNotFound, t)"
  by (auto simp: remove_tree_def tree_well_formed_def tree_keys_def remove_descend_absent
      split: option.splits)

theorem remove_absent_key_witness:
  "tree_well_formed
     \<lparr>order = 7, root = Some (BTreeNode [4::int] [BTreeNode [1, 2, 3] [], BTreeNode [5, 6, 7] []])\<rparr>
   \<and> (9::int) \<notin> tree_keys
     \<lparr>order = 7, root = Some (BTreeNode [4] [BTreeNode [1, 2, 3] [], BTreeNode [5, 6, 7] []])\<rparr>
   \<and> remove_tree (Some 9)
     \<lparr>order = 7, root = Some (BTreeNode [4::int] [BTreeNode [1, 2, 3] [], BTreeNode [5, 6, 7] []])\<rparr>
      = (Some KeyNotFound,
         \<lparr>order = 7, root = Some (BTreeNode [4] [BTreeNode [1, 2, 3] [], BTreeNode [5, 6, 7] []])\<rparr>)"
  using remove_absent_key
    [of "\<lparr>order = 7, root = Some (BTreeNode [4::int] [BTreeNode [1, 2, 3] [], BTreeNode [5, 6, 7] []])\<rparr>" 9]
  by (simp add: tree_well_formed_def tree_keys_def)

section \<open>Removing the last key\<close>

text \<open>
  C10. Removing the key of a tree whose root is a leaf with that single key leaves a root
  that is a leaf with no key and no child (the root does not become absent), and the
  traversal of that tree yields nothing.
\<close>

theorem remove_last_key:
  "remove_tree (Some k) \<lparr>order = M, root = Some (BTreeNode [k] [])\<rparr>
     = (None, \<lparr>order = M, root = Some (BTreeNode [] [])\<rparr>)
   \<and> traverse_inorder \<lparr>order = M, root = Some (BTreeNode [] [])\<rparr> = Inr ([] :: 'a::linorder list)"
  by (simp add: remove_tree_def delete_key_def remove_descend.simps is_internal_def is_leaf_def
      del_at_def traverse_inorder_def)

theorem remove_last_key_witness:
  "remove_tree (Some (1::int)) \<lparr>order = 3, root = Some (BTreeNode [1] [])\<rparr>
     = (None, \<lparr>order = 3, root = Some (BTreeNode [] [])\<rparr>)
   \<and> traverse_inorder \<lparr>order = 3, root = Some (BTreeNode [] [])\<rparr> = Inr ([] :: int list)"
  using remove_last_key [of "1::int" 3] by simp

section \<open>Sequences of operations from the empty tree\<close>

text \<open>
  C2. For every order \<open>M \<ge> 3\<close> and every sequence of insertions and removals, starting
  from the empty tree, in which no inserted key is in the tree at the time it is inserted,
  the traversal of the resulting tree does not raise and yields strictly ascending keys,
  which are the keys inserted and not removed since.
\<close>

theorem traversal_strictly_ascending:
  fixes ops :: "'a::linorder op list"
  assumes "3 \<le> M" and "distinct_keys [] ops"
  shows "\<exists>xs. traverse_inorder (run ops (empty_tree M)) = Inr xs \<and> sorted_wrt (<) xs
              \<and> set xs = set (present_after [] ops)"
proof -
  note g = reachable_good [OF assms]
  have "traverse_inorder (run ops (empty_tree M)) = Inr (tree_list (run ops (empty_tree M)))"
    using g(1) by (simp add: good_def traverse_inorder_eq)
  moreover have "sorted_wrt (<) (tree_list (run ops (empty_tree M)))"
    using g(1) by (simp add: good_def strict_sorted_iff)
  ultimately show ?thesis using g(3) by blast
qed

theorem traversal_strictly_ascending_witness:
  "(3::int) \<le> 3 \<and> distinct_keys [] sample_ops
   \<and> (\<exists>xs. traverse_inorder (run sample_ops (empty_tree 3)) = Inr xs \<and> sorted_wrt (<) xs
             \<and> set xs = set (present_after [] sample_ops))
   \<and> traverse_inorder (run sample_ops (empty_tree 3)) = Inr [2, 3, 5, 7, 8]"
proof -
  have a: "(3::int) \<le> 3" by simp
  have b: "distinct_keys [] sample_ops" by (simp add: sample_ops_def)
  have c: "traverse_inorder (run sample_ops (empty_tree 3)) = Inr [2, 3, 5, 7, 8]" by code_simp
  show ?thesis using a b c traversal_strictly_ascending [OF a b] by blast
qed

text \<open>
  C8. For every order \<open>M \<ge> 3\<close>, odd or even, and every sequence of insertions and
  removals starting from the empty tree (of distinct keys or not, of keys that are in the
  tree or not), after each operation of the sequence (after the first \<open>n\<close> of them,
  for every \<open>n\<close>) every node other than the root holds at least \<open>(M - 1) div 2\<close> keys.
\<close>

theorem occupancy_after_every_operation:
  fixes ops :: "'a::linorder op list"
  assumes "3 \<le> M"
  shows "occupancy_bound (run (take n ops) (empty_tree M))"
proof -
  note g = reachable_sound [OF assms, of "take n ops"]
  show ?thesis using tree_inv_occupancy [of "run (take n ops) (empty_tree M)"] g(1,3) assms
    by simp
qed

theorem occupancy_after_every_operation_witness:
  "(3::int) \<le> 3
   \<and> occupancy_bound (run (take 9 sample_ops) (empty_tree 3))
   \<and> run (take 9 sample_ops) (empty_tree 3)
       = \<lparr>order = 3, root = Some (BTreeNode [5] [BTreeNode [2, 3] [], BTreeNode [6, 7] []])\<rparr>"
proof -
  have a: "(3::int) \<le> 3" by simp
  have c: "run (take 9 sample_ops) (empty_tree 3)
       = \<lparr>order = 3, root = Some (BTreeNode [5] [BTreeNode [2, 3] [], BTreeNode [6, 7] []])\<rparr>"
    by code_simp
  show ?thesis using a c occupancy_after_every_operation [OF a, of 9 sample_ops] by blast
qed

text \<open>
  C3. In every tree of order \<open>M \<ge> 3\<close> reached from the empty tree by insertions and
  removals, the search for a key that a node of the tree holds returns a node of the tree
  whose keys contain it.
\<close>

theorem search_finds_present_key:
  fixes ops :: "'a::linorder op list"
  assumes "3 \<le> M" and "k \<in> tree_keys (run ops (empty_tree M))"
  shows "\<exists>r node. root (run ops (empty_tree M)) = Some r
            \<and> search (Some k) (run ops (empty_tree M)) = Inr (Some node)
            \<and> k \<in> set (keys node) \<and> node \<in> subtrees r"
proof -
  let ?T = "run ops (empty_tree M)"
  note g = reachable_sound [OF assms(1), of ops]
  have inv: "tree_inv ?T" and srt: "sorted (tree_list ?T)" by (rule g(1), rule g(2))
  have mem: "k \<in> set (tree_list ?T)" using assms(2) tree_keys_list [OF inv] by simp
  then obtain r where r: "root ?T = Some r" by (cases "root ?T") (auto simp: tree_list_def)
  from inv r obtain h where h: "node_inv (min_keys (order ?T)) (need (min_keys (order ?T)) True h) h r"
    by (auto simp: tree_inv_def)
  from search_node_finds [OF h, of k] srt mem r obtain node where
    "search_node k r = Inr (Some node)" "k \<in> set (keys node)" "node \<in> subtrees r"
    by (auto simp: tree_list_def)
  then show ?thesis using r by (simp add: search_def)
qed

theorem search_finds_present_key_witness:
  "(3::int) \<le> 3
   \<and> 5 \<in> tree_keys (run sample_ops (empty_tree 3))
   \<and> (\<exists>r node. root (run sample_ops (empty_tree 3)) = Some r
          \<and> search (Some 5) (run sample_ops (empty_tree 3)) = Inr (Some node)
          \<and> 5 \<in> set (keys node) \<and> node \<in> subtrees r)
   \<and> search (Some 5) (run sample_ops (empty_tree 3)) = Inr (Some (BTreeNode [5] []))"
proof -
  have a: "(3::int) \<le> 3" by simp
  have r: "run sample_ops (empty_tree 3)
       = \<lparr>order = 3,
          root = Some (BTreeNode [3, 7] [BTreeNode [2] [], BTreeNode [5] [], BTreeNode [8] []])\<rparr>"
    by code_simp
  have c: "5 \<in> tree_keys (run sample_ops (empty_tree 3))"
    unfolding r by (simp add: tree_keys_def)
  have d: "search (Some 5) (run sample_ops (empty_tree 3)) = Inr (Some (BTreeNode [5] []))"
    by code_simp
  show ?thesis using a c d search_finds_present_key [OF a c] by blast
qed

text \<open>
  C9. In every tree of order \<open>M \<ge> 3\<close> reached from the empty tree by insertions and
  removals, inserting a key \<open>k\<close> that the tree already holds does not raise, and the
  new occurrence stands next to the old one in the traversal: the traversal, which was
  \<open>ys @ k # zs\<close>, becomes \<open>ys @ k # k # zs\<close>.
\<close>

theorem insert_duplicate_key:
  fixes ops :: "'a::linorder op list"
  assumes "3 \<le> M" and "k \<in> tree_keys (run ops (empty_tree M))"
  shows "\<exists>T' ys zs. insert_tree (Some k) (run ops (empty_tree M)) = (None, T')
            \<and> traverse_inorder (run ops (empty_tree M)) = Inr (ys @ k # zs)
            \<and> traverse_inorder T' = Inr (ys @ k # k # zs)"
proof -
  let ?T = "run ops (empty_tree M)"
  note g = reachable_sound [OF assms(1), of ops]
  have inv: "tree_inv ?T" and srt: "sorted (tree_list ?T)" by (rule g(1), rule g(2))
  have mem: "k \<in> set (tree_list ?T)" using assms(2) tree_keys_list [OF inv] by simp
  have o: "3 \<le> order ?T" using g(3) assms(1) by simp
  from insert_tree_inv [OF o inv srt, of k] obtain T' L R where
    a: "insert_tree (Some k) ?T = (None, T')" "tree_inv T'"
       "tree_list ?T = L @ R" "tree_list T' = L @ k # R"
       "\<forall>x\<in>set L. x < k" "\<forall>x\<in>set R. k \<le> x" by blast
  have "k \<in> set R" using mem a(3,5) by auto
  then obtain y zs where R: "R = y # zs" by (cases R) auto
  have "sorted R" using srt a(3) by (simp add: sorted_append)
  then have "y \<le> k" using R \<open>k \<in> set R\<close> by auto
  moreover have "k \<le> y" using a(6) R by simp
  ultimately have "y = k" by simp
  then have "tree_list ?T = L @ k # zs" "tree_list T' = L @ k # k # zs" using a(3,4) R by simp_all
  then show ?thesis using a(1) traverse_inorder_eq [OF inv] traverse_inorder_eq [OF a(2)] by auto
qed

theorem insert_duplicate_key_witness:
  "(3::int) \<le> 3
   \<and> 7 \<in> tree_keys (run sample_ops (empty_tree 3))
   \<and> (\<exists>T' ys zs. insert_tree (Some 7) (run sample_ops (empty_tree 3)) = (None, T')
          \<and> traverse_inorder (run sample_ops (empty_tree 3)) = Inr (ys @ 7 # zs)
          \<and> traverse_inorder T' = Inr (ys @ 7 # 7 # zs))
   \<and> traverse_inorder (snd (insert_tree (Some 7) (run sample_ops (empty_tree 3))))
       = Inr [2, 3, 5, 7, 7, 8]"
proof -
  have a: "(3::int) \<le> 3" by simp
  have r: "run sample_ops (empty_tree 3)
       = \<lparr>order = 3,
          root = Some (BTreeNode [3, 7] [BTreeNode [2] [], BTreeNode [5] [], BTreeNode [8] []])\<rparr>"
    by code_simp
  have c: "7 \<in> tree_keys (run sample_ops (empty_tree 3))"
    unfolding r by (simp add: tree_keys_def)
  have d: "traverse_inorder (snd (insert_tree (Some 7) (run sample_ops (empty_tree 3))))
       = Inr [2, 3, 5, 7, 7, 8]"
    by code_simp
  show ?thesis using a c d insert_duplicate_key [OF a c] by blast
qed

section \<open>The split of a node that holds too many keys\<close>

text \<open>
  C5. A node that holds more than \<open>order - 1\<close> keys is split at \<open>mid = (order - 1) div 2\<close>:
  the left node gets the keys before \<open>mid\<close> and the children up to \<open>mid\<close>, the right node
  the keys and the children after \<open>mid\<close>. At the root the new root holds the key at
  \<open>mid\<close> alone, with the two nodes as its children; below the root the walk goes on with
  the parent, in which the key at \<open>mid\<close> is inserted at the index of the slot of the
  node, that slot holds the left node and the right node is inserted right after it.
\<close>

theorem split_on_overflow:
  assumes "1 \<le> ord" and "ord - 1 < int (length (keys cur))"
  shows "fix_insert ord cur []
           = (None, BTreeNode [spec_promoted ord cur] [spec_left ord cur, spec_right ord cur])
       \<and> (i < length (children p) \<longrightarrow>
            fix_insert ord cur ((p, i) # path)
              = fix_insert ord
                  (spec_parent_after_split p i (spec_left ord cur) (spec_promoted ord cur)
                     (spec_right ord cur))
                  path)"
  using assms by (simp add: split_node_spec promote_spec)

theorem split_on_overflow_witness:
  "(1::int) \<le> 5 \<and> 5 - 1 < int (length (keys (BTreeNode [1, 2, 3, 4, 5::int] [])))
   \<and> fix_insert 5 (BTreeNode [1, 2, 3, 4, 5::int] []) []
       = (None, BTreeNode [3] [BTreeNode [1, 2] [], BTreeNode [4, 5] []])
   \<and> 0 < length (children (BTreeNode [9::int] [BTreeNode [1, 2, 3, 4] [], BTreeNode [10, 11] []]))
   \<and> fix_insert 5 (BTreeNode [1, 2, 3, 4, 5::int] [])
         [(BTreeNode [9] [BTreeNode [1, 2, 3, 4] [], BTreeNode [10, 11] []], 0)]
       = (None, BTreeNode [3, 9] [BTreeNode [1, 2] [], BTreeNode [4, 5] [], BTreeNode [10, 11] []])"
  using split_on_overflow [of 5 "BTreeNode [1, 2, 3, 4, 5::int] []" 0
        "BTreeNode [9] [BTreeNode [1, 2, 3, 4] [], BTreeNode [10, 11] []]" "[]"]
  by (simp add: spec_promoted_def spec_left_def spec_right_def spec_mid_def
      spec_parent_after_split_def)

section \<open>The successor of a key removed from an internal node\<close>

text \<open>
  C6. When the descent of \<open>remove\<close> finds the key at index \<open>idx\<close> of an internal node,
  the leaf that loses a key is the leftmost leaf below \<open>children[idx + 1]\<close>; before the
  repair walk starts, the node holds the first key of that leaf in place of the key, and
  the subtree at \<open>idx + 1\<close> is the old one without the first key of that leaf. The walk
  starts at that leaf, on the path through these nodes.
\<close>

theorem remove_from_internal_node:
  assumes "root T = Some r" and "remove_descend k r [] = Inr (target, idx, path)"
    and "is_internal target" and "idx + 1 < length (children target)"
    and "keys (leftmost_leaf (children target ! (idx + 1))) = k0 # rest"
  shows "\<exists>leaf below.
           descend_leftmost (children target ! (idx + 1)) [] = (leaf, below)
         \<and> leaf = leftmost_leaf (children target ! (idx + 1))
         \<and> remove_tree (Some k) T
             = (case fix_remove (order T) False (BTreeNode rest (children leaf))
                       (below @ (BTreeNode ((keys target)[idx := k0]) (children target), idx + 1)
                          # path) of
                  (e, r') \<Rightarrow> (e, T\<lparr>root := Some r'\<rparr>))
         \<and> plug (BTreeNode rest (children leaf))
                 (below @ [(BTreeNode ((keys target)[idx := k0]) (children target), idx + 1)])
             = BTreeNode ((keys target)[idx := k0])
                 ((children target)[idx + 1 := without_first_key (children target ! (idx + 1))])"
proof -
  let ?c = "children target ! (idx + 1)"
  let ?f = "(BTreeNode ((keys target)[idx := k0]) (children target), idx + 1)"
  obtain leaf below where lb: "descend_leftmost ?c [] = (leaf, below)"
    by (cases "descend_leftmost ?c []")
  have leaf: "leaf = leftmost_leaf ?c" using descend_leftmost_spec [OF lb] by simp
  have ks: "keys leaf = k0 # rest" using leaf assms(5) by simp
  have "descend_leftmost ?c [?f] = (leaf, below @ [?f])"
    using descend_leftmost_append [of ?c "[]" "[?f]"] lb by simp
  from descend_leftmost_spec [OF this, THEN conjunct2]
  have pl: "plug (BTreeNode rest (children leaf)) (below @ [?f])
              = BTreeNode ((keys target)[idx := k0])
                  ((children target)[idx + 1 := without_first_key ?c])"
    using ks by simp
  have "delete_key (order T) r target idx path
          = fix_remove (order T) False (BTreeNode rest (children leaf)) (below @ ?f # path)"
    using assms(3,4) lb ks by (simp add: delete_key_def)
  then have "remove_tree (Some k) T
             = (case fix_remove (order T) False (BTreeNode rest (children leaf)) (below @ ?f # path) of
                  (e, r') \<Rightarrow> (e, T\<lparr>root := Some r'\<rparr>))"
    using assms(1,2) by (simp add: remove_tree_def)
  with lb leaf pl show ?thesis by blast
qed

theorem remove_from_internal_node_witness:
  "root sample_tree = Some sample_root
   \<and> remove_descend 4 sample_root [] = Inr (sample_root, 0, [])
   \<and> is_internal sample_root
   \<and> 0 + 1 < length (children sample_root)
   \<and> keys (leftmost_leaf (children sample_root ! (0 + 1))) = 5 # []
   \<and> (\<exists>leaf below.
           descend_leftmost (children sample_root ! (0 + 1)) [] = (leaf, below)
         \<and> leaf = leftmost_leaf (children sample_root ! (0 + 1))
         \<and> remove_tree (Some 4) sample_tree
             = (case fix_remove (order sample_tree) False (BTreeNode [] (children leaf))
                       (below @ (BTreeNode ((keys sample_root)[0 := 5]) (children sample_root),
                                 0 + 1) # []) of
                  (e, r') \<Rightarrow> (e, sample_tree\<lparr>root := Some r'\<rparr>))
         \<and> plug (BTreeNode [] (children leaf))
                 (below @ [(BTreeNode ((keys sample_root)[0 := 5]) (children sample_root), 0 + 1)])
             = BTreeNode ((keys sample_root)[0 := 5])
                 ((children sample_root)
                    [0 + 1 := without_first_key (children sample_root ! (0 + 1))]))
   \<and> remove_tree (Some 4) sample_tree
       = (None, \<lparr>order = 3,
                 root = Some (BTreeNode [2, 5] [BTreeNode [1] [], BTreeNode [3] [],
                                                 BTreeNode [6, 7] []])\<rparr>)"
proof -
  have a: "root sample_tree = Some sample_root" by (simp add: sample_tree_def)
  have b: "remove_descend 4 sample_root [] = Inr (sample_root, 0, [])" by code_simp
  have c: "is_internal sample_root" by code_simp
  have d: "0 + 1 < length (children sample_root)" by (simp add: sample_root_def)
  have e: "keys (leftmost_leaf (children sample_root ! (0 + 1))) = 5 # []" by code_simp
  have f: "remove_tree (Some 4) sample_tree
       = (None, \<lparr>order = 3,
                 root = Some (BTreeNode [2, 5] [BTreeNode [1] [], BTreeNode [3] [],
                                                 BTreeNode [6, 7] []])\<rparr>)"
    by code_simp
  show ?thesis
    using a b c d e f remove_from_internal_node [OF a b c d e] by blast
qed

section \<open>Merging an underflowing node\<close>

text \<open>
  C7, as stated: when no sibling is populous the node is merged with its left sibling
  whenever it has one. On the tree of order 3 with root keys 2, 4 and the leaves 1, 3, 5,
  removing 3 empties the middle leaf; the code merges it with its right sibling, giving
  root key 2 over the leaves 1 and 4, 5, where the merge with the left sibling would give
  root key 4 over the leaves 1, 2 and 5.
\<close>

theorem merge_prefers_left_counterexample:
  "fix_remove_step 3 False (BTreeNode [] [])
       (BTreeNode [2, 4::int] [BTreeNode [1] [], BTreeNode [3] [], BTreeNode [5] []]) 1
     = Continue True (BTreeNode [2] [BTreeNode [1] [], BTreeNode [4, 5] []])
   \<and> spec_merge [2, 4::int] [BTreeNode [1] [], BTreeNode [] [], BTreeNode [5] []] 1
     = BTreeNode [4] [BTreeNode [1, 2] [], BTreeNode [5] []]
   \<and> fix_remove_step 3 False (BTreeNode [] [])
       (BTreeNode [2, 4::int] [BTreeNode [1] [], BTreeNode [3] [], BTreeNode [5] []]) 1
     \<noteq> Continue True
         (spec_merge [2, 4::int] [BTreeNode [1] [], BTreeNode [] [], BTreeNode [5] []] 1)
   \<and> snd (remove_tree (Some 3)
       \<lparr>order = 3, root = Some (BTreeNode [2, 4::int] [BTreeNode [1] [], BTreeNode [3] [], BTreeNode [5] []])\<rparr>)
     = \<lparr>order = 3, root = Some (BTreeNode [2] [BTreeNode [1] [], BTreeNode [4, 5] []])\<rparr>"
  by code_simp

text \<open>
  C7, amended: when an underflowing node has no populous sibling on either side, it is
  merged with its right sibling whenever it has one, and with its left sibling only when
  it is the last child of its parent. The node on the left of the two absorbs the
  separator and the keys and children of the node on the right; the slot of the node on
  the right and the separator are removed from the parent, and the walk goes on with the
  parent.
\<close>

theorem merge_without_populous_sibling:
  assumes "is_node_underflowing ord False cur"
    and "i < length (children p)" and "2 \<le> length (children p)"
    and "length (children p) = Suc (length (keys p))"
    and "i \<noteq> 0 \<longrightarrow> \<not> is_node_populous ord False (children p ! (i - 1))"
    and "Suc i < length (children p) \<longrightarrow> \<not> is_node_populous ord False (children p ! (i + 1))"
  shows "\<exists>lb'. fix_remove_step ord lb cur p i
           = Continue lb' (merge_at (keys p) ((children p)[i := cur])
                             (if Suc i < length (children p) then i else i - 1))"
proof (cases "Suc i < length (children p)")
  case True
  then have "fix_remove_step ord lb cur p i
               = merge_children (lb \<or> i \<noteq> 0) (keys p) ((children p)[i := cur]) i"
    using assms by (auto simp add: fix_remove_step_def Let_def)
  moreover have "merge_children (lb \<or> i \<noteq> 0) (keys p) ((children p)[i := cur]) i
                   = Continue (lb \<or> i \<noteq> 0) (merge_at (keys p) ((children p)[i := cur]) i)"
    using True assms(4) by (intro merge_children_eq) simp_all
  ultimately show ?thesis using True by (intro exI [of _ "lb \<or> i \<noteq> 0"]) simp
next
  case False
  then have last: "i = length (children p) - 1" and i0: "i \<noteq> 0" using assms(2,3) by auto
  have "fix_remove_step ord lb cur p i
          = merge_children True (keys p) ((children p)[i := cur]) (i - 1)"
    using assms last i0 by (auto simp add: fix_remove_step_def Let_def)
  moreover have "merge_children True (keys p) ((children p)[i := cur]) (i - 1)
                   = Continue True (merge_at (keys p) ((children p)[i := cur]) (i - 1))"
    using i0 assms(2,4) by (intro merge_children_eq) simp_all
  ultimately show ?thesis using False by (intro exI [of _ True]) simp
qed

theorem merge_without_populous_sibling_witness:
  "is_node_underflowing 3 False (BTreeNode ([]::int list) [])
   \<and> 1 < length (children (BTreeNode [2, 4::int] [BTreeNode [1] [], BTreeNode [3] [], BTreeNode [5] []]))
   \<and> 2 \<le> length (children (BTreeNode [2, 4::int] [BTreeNode [1] [], BTreeNode [3] [], BTreeNode [5] []]))
   \<and> length (children (BTreeNode [2, 4::int] [BTreeNode [1] [], BTreeNode [3] [], BTreeNode [5] []]))
       = Suc (length (keys (BTreeNode [2, 4::int] [BTreeNode [1] [], BTreeNode [3] [], BTreeNode [5] []])))
   \<and> \<not> is_node_populous 3 False (BTreeNode [1::int] [])
   \<and> \<not> is_node_populous 3 False (BTreeNode [5::int] [])
   \<and> (\<exists>lb'. fix_remove_step 3 False (BTreeNode [] [])
                (BTreeNode [2, 4::int] [BTreeNode [1] [], BTreeNode [3] [], BTreeNode [5] []]) 1
              = Continue lb' (BTreeNode [2] [BTreeNode [1] [], BTreeNode [4, 5] []]))"
  using merge_without_populous_sibling [of 3 "BTreeNode ([]::int list) []" 1
      "BTreeNode [2, 4::int] [BTreeNode [1] [], BTreeNode [3] [], BTreeNode [5] []]" False]
  by (simp add: is_node_underflowing_def is_node_populous_def merge_at_def)

end
